theory Spec2Isabelle
  imports Main "HOL-Library.Char_ord" "HOL-Library.List_Lexorder"
begin

section \<open>go-http-client: a shallow embedding of client.go\<close>

text \<open>
  Go strings are byte sequences: they are modelled as \<^typ>\<open>string\<close>, a list of 8-bit
  characters. Go's \<open>int\<close> only counts redirects here and is never near its bounds, so it is
  modelled as \<^typ>\<open>int\<close>.
\<close>

subsection \<open>Errors\<close>

text \<open>
  \<open>errors.New(msg)\<close> is \<open>ErrorString msg\<close>. The error types of \<open>net/url\<close> keep their
  names: \<open>EscapeError\<close> and \<open>InvalidHostError\<close> carry the offending text, \<open>UrlError op url err\<close>
  is \<open>&url.Error{op, url, err}\<close>, \<open>InvalidPortError p\<close> is
  \<open>fmt.Errorf("invalid port %q after host", p)\<close> and \<open>InvalidMethodError m\<close> is
  \<open>fmt.Errorf("net/http: invalid method %q", m)\<close>. An error of the transport is
  \<open>TransportError msg\<close>; a run-time panic (a write to a nil map, an index out of range)
  is \<open>Panic msg\<close>.

  Modelled from the spec: \<open>TooManyRedirects\<close>, the package-level error value that the
  redirect policy of \<open>Submit\<close> returns. \<open>Submit\<close> names it, its declaration is not among the
  source files; the spec calls it the \<open>TooManyRedirects\<close> condition.
\<close>

datatype error =
    ErrorString string
  | EscapeError string
  | InvalidHostError string
  | InvalidPortError string
  | InvalidMethodError string
  | UrlError string string error
  | TransportError string
  | TooManyRedirects
  | Panic string

subsection \<open>Go maps from strings to string slices\<close>

text \<open>
  \<open>http.Header\<close> and \<open>url.Values\<close> are both \<open>map[string][]string\<close>. The entries of a map
  are an association list, read through \<open>map_get\<close> (the first entry of a key counts); a
  map value that may be \<open>nil\<close> is an \<open>option\<close>, \<open>None\<close> being the nil map. Reading a nil
  map finds nothing, writing to it panics.
\<close>

type_synonym entries = "(string \<times> string list) list"
type_synonym gomap = "entries option"

definition map_get :: "entries \<Rightarrow> string \<Rightarrow> string list option" where
  "map_get m k = map_of m k"

fun map_set :: "entries \<Rightarrow> string \<Rightarrow> string list \<Rightarrow> entries" where
  "map_set [] k v = [(k, v)]"
| "map_set ((k', v') # m) k v = (if k' = k then (k, v) # m else (k', v') # map_set m k v)"

text \<open>\<open>m[k]\<close> as an expression: the zero value (a nil slice) for a missing key.\<close>

definition map_index :: "entries \<Rightarrow> string \<Rightarrow> string list" where
  "map_index m k = (case map_get m k of None \<Rightarrow> [] | Some vs \<Rightarrow> vs)"

text \<open>
  \<open>for k, v := range m\<close> visits every key once. Go leaves the order unspecified; the
  model visits the keys in the order of the list.
\<close>

definition map_range :: "entries \<Rightarrow> (string \<times> string list) list" where
  "map_range m = map (\<lambda>k. (k, map_index m k)) (remdups (map fst m))"

definition gomap_get :: "gomap \<Rightarrow> string \<Rightarrow> string list option" where
  "gomap_get m k = (case m of None \<Rightarrow> None | Some es \<Rightarrow> map_get es k)"

definition gomap_index :: "gomap \<Rightarrow> string \<Rightarrow> string list" where
  "gomap_index m k = (case m of None \<Rightarrow> [] | Some es \<Rightarrow> map_index es k)"

definition gomap_range :: "gomap \<Rightarrow> (string \<times> string list) list" where
  "gomap_range m = (case m of None \<Rightarrow> [] | Some es \<Rightarrow> map_range es)"

definition gomap_len :: "gomap \<Rightarrow> nat" where
  "gomap_len m = (case m of None \<Rightarrow> 0 | Some es \<Rightarrow> length (remdups (map fst es)))"

subsection \<open>Bytes and \<open>strings.ToLower\<close>\<close>

definition isUpperASCII :: "char \<Rightarrow> bool" where
  "isUpperASCII c = (CHR ''A'' \<le> c \<and> c \<le> CHR ''Z'')"

definition isLowerASCII :: "char \<Rightarrow> bool" where
  "isLowerASCII c = (CHR ''a'' \<le> c \<and> c \<le> CHR ''z'')"

definition isDigit :: "char \<Rightarrow> bool" where
  "isDigit c = (CHR ''0'' \<le> c \<and> c \<le> CHR ''9'')"

definition toLowerASCII :: "char \<Rightarrow> char" where
  "toLowerASCII c = (if isUpperASCII c then char_of (of_char c + (32::nat)) else c)"

definition toUpperASCII :: "char \<Rightarrow> char" where
  "toUpperASCII c = (if isLowerASCII c then char_of (of_char c - (32::nat)) else c)"

text \<open>\<open>utf8.RuneSelf\<close> is 0x80: the bytes below it are the ASCII characters.\<close>

definition isASCII :: "char \<Rightarrow> bool" where
  "isASCII c = (of_char c < (128::nat))"

text \<open>
  \<open>strings.ToLower\<close> maps an all-ASCII string byte by byte and hands every other string
  to \<open>strings.Map(unicode.ToLower, s)\<close>. Go's Unicode case tables are not modelled: that
  second path is the parameter \<open>unicodeLower\<close>, and nothing below depends on what it
  returns.
\<close>

definition strings_ToLower :: "(string \<Rightarrow> string) \<Rightarrow> string \<Rightarrow> string" where
  "strings_ToLower unicodeLower s =
     (if list_all isASCII s then map toLowerASCII s else unicodeLower s)"

subsection \<open>The response envelope (\<open>httpResponse\<close>)\<close>

text \<open>
  The raw \<open>*http.Response\<close> as the envelope reads it: the status code, the header and the
  outcome of draining the body with \<open>io.ReadAll\<close> (the bytes, or the read error).
\<close>

record rawResponse =
  StatusCode :: int
  Header :: gomap
  Body :: "error + string"

record httpResponse =
  original :: rawResponse
  statusCode :: int
  body :: string
  headers :: gomap

definition response_Original :: "httpResponse \<Rightarrow> rawResponse" where
  "response_Original r = original r"

definition response_StatusCode :: "httpResponse \<Rightarrow> int" where
  "response_StatusCode r = statusCode r"

definition IsSuccess :: "httpResponse \<Rightarrow> bool" where
  "IsSuccess r = (statusCode r \<ge> 200 \<and> statusCode r < 300)"

definition IsServerError :: "httpResponse \<Rightarrow> bool" where
  "IsServerError r = (statusCode r \<ge> 500)"

definition IsClientError :: "httpResponse \<Rightarrow> bool" where
  "IsClientError r = (statusCode r \<ge> 400 \<and> statusCode r < 500)"

definition response_Headers :: "httpResponse \<Rightarrow> gomap" where
  "response_Headers r = headers r"

text \<open>
  \<open>GetHeader\<close> returns \<open>h[0]\<close> for a key that is present: when the key is present with
  an empty slice, the index panics.
\<close>

definition GetHeader :: "(string \<Rightarrow> string) \<Rightarrow> httpResponse \<Rightarrow> string \<Rightarrow> error + (string \<times> bool)" where
  "GetHeader unicodeLower r key =
     (case gomap_get (headers r) (strings_ToLower unicodeLower key) of
        None \<Rightarrow> Inr ('''', False)
      | Some h \<Rightarrow>
          (case h of
             [] \<Rightarrow> Inl (Panic ''index out of range [0] with length 0'')
           | v # _ \<Rightarrow> Inr (v, True)))"

definition HasHeader :: "(string \<Rightarrow> string) \<Rightarrow> httpResponse \<Rightarrow> string \<Rightarrow> error + bool" where
  "HasHeader unicodeLower r key =
     (case GetHeader unicodeLower r key of Inl e \<Rightarrow> Inl e | Inr (_, ok) \<Rightarrow> Inr ok)"

definition IsJsonResponse :: "(string \<Rightarrow> string) \<Rightarrow> httpResponse \<Rightarrow> error + bool" where
  "IsJsonResponse unicodeLower r =
     (case GetHeader unicodeLower r ''content-type'' of
        Inl e \<Rightarrow> Inl e
      | Inr (v, ok) \<Rightarrow>
          (if \<not> ok \<or> v \<noteq> ''application/json'' then Inr False else Inr True))"

definition Content :: "httpResponse \<Rightarrow> string" where
  "Content r = body r"

text \<open>
  \<open>json.Unmarshal\<close> is a collaborator outside this repository: \<open>ParseJson\<close> takes the
  decoder into a \<open>map[string]interface{}\<close> as the parameter \<open>unmarshal\<close>, which returns the
  decoded value or the decoder's error.
\<close>

definition ParseJson ::
  "(string \<Rightarrow> string) \<Rightarrow> (string \<Rightarrow> error + 'j) \<Rightarrow> httpResponse \<Rightarrow> error + 'j" where
  "ParseJson unicodeLower unmarshal r =
     (case IsJsonResponse unicodeLower r of
        Inl e \<Rightarrow> Inl e
      | Inr isJson \<Rightarrow>
          (if \<not> isJson then Inl (ErrorString ''not a json response'')
           else unmarshal (body r)))"

text \<open>
  The \<open>dest interface{}\<close> of \<open>ParseAs\<close>, as far as \<open>ParseAs\<close> inspects it: the nil
  interface, or a value with its \<open>reflect.Kind\<close> (a pointer or not) and whether its
  dynamic type implements \<open>json.Unmarshaler\<close>; \<open>target\<close> stands for the value itself, which
  only the decoder reads.
\<close>

datatype reflect_Kind = Ptr | NotPtr

datatype 'd dest = NilDest | Dest reflect_Kind bool 'd

text \<open>
  \<open>ParseAs\<close> returns an \<open>error\<close>: \<open>None\<close> is Go's nil error. The decoder into the
  destination is the parameter \<open>unmarshalInto\<close>.
\<close>

definition ParseAs ::
  "(string \<Rightarrow> string) \<Rightarrow> (string \<Rightarrow> 'd \<Rightarrow> error option) \<Rightarrow> httpResponse \<Rightarrow> 'd dest
     \<Rightarrow> error option" where
  "ParseAs unicodeLower unmarshalInto r d =
     (case d of
        NilDest \<Rightarrow> Some (ErrorString ''dest is nil'')
      | Dest k isUnmarshaler target \<Rightarrow>
          (if length (body r) = 0 then Some (ErrorString ''body is empty'')
           else if k \<noteq> Ptr then Some (ErrorString ''dest is not a pointer'')
           else
             (case IsJsonResponse unicodeLower r of
                Inl e \<Rightarrow> Some e
              | Inr isJson \<Rightarrow>
                  (if \<not> isJson then Some (ErrorString ''not a json response'')
                   else if \<not> isUnmarshaler
                     then Some (ErrorString ''dest does not implement json.Unmarshaler'')
                   else unmarshalInto (body r) target))))"

subsection \<open>The functions of package \<open>strings\<close> that the client calls\<close>

definition strings_HasPrefix :: "string \<Rightarrow> string \<Rightarrow> bool" where
  "strings_HasPrefix s p = (take (length p) s = p)"

definition strings_HasSuffix :: "string \<Rightarrow> string \<Rightarrow> bool" where
  "strings_HasSuffix s p = (length p \<le> length s \<and> drop (length s - length p) s = p)"

definition strings_TrimPrefix :: "string \<Rightarrow> string \<Rightarrow> string" where
  "strings_TrimPrefix s p = (if strings_HasPrefix s p then drop (length p) s else s)"

text \<open>\<open>strings.Index\<close> and \<open>strings.LastIndex\<close>; \<open>None\<close> is Go's \<open>-1\<close>.\<close>

fun strings_Index :: "string \<Rightarrow> string \<Rightarrow> nat option" where
  "strings_Index [] sub = (if sub = [] then Some 0 else None)"
| "strings_Index (c # s) sub =
     (if strings_HasPrefix (c # s) sub then Some 0
      else (case strings_Index s sub of None \<Rightarrow> None | Some i \<Rightarrow> Some (Suc i)))"

fun strings_LastIndex :: "string \<Rightarrow> string \<Rightarrow> nat option" where
  "strings_LastIndex [] sub = (if sub = [] then Some 0 else None)"
| "strings_LastIndex (c # s) sub =
     (case strings_LastIndex s sub of
        Some i \<Rightarrow> Some (Suc i)
      | None \<Rightarrow> (if strings_HasPrefix (c # s) sub then Some 0 else None))"

definition strings_Contains :: "string \<Rightarrow> string \<Rightarrow> bool" where
  "strings_Contains s sub = (strings_Index s sub \<noteq> None)"

text \<open>
  \<open>strings.Cut(s, sep)\<close> returns \<open>before, after, found\<close>; the two strings are the
  functions \<open>Cut_before\<close> and \<open>Cut_after\<close>.
\<close>

definition Cut_before :: "string \<Rightarrow> string \<Rightarrow> string" where
  "Cut_before s sep = (case strings_Index s sep of None \<Rightarrow> s | Some i \<Rightarrow> take i s)"

definition Cut_after :: "string \<Rightarrow> string \<Rightarrow> string" where
  "Cut_after s sep =
     (case strings_Index s sep of None \<Rightarrow> [] | Some i \<Rightarrow> drop (i + length sep) s)"

text \<open>\<open>strings.Trim(s, cutset)\<close> for a cutset of ASCII bytes.\<close>

definition strings_Trim :: "string \<Rightarrow> string \<Rightarrow> string" where
  "strings_Trim s cutset =
     rev (dropWhile (\<lambda>c. c \<in> set cutset) (rev (dropWhile (\<lambda>c. c \<in> set cutset) s)))"

text \<open>
  \<open>strings.TrimSpace\<close> removes the leading and the trailing white space, as
  \<open>unicode.IsSpace\<close> defines it: the six ASCII space bytes, and the code points U+0085,
  U+00A0, U+1680, U+2000 to U+200A, U+2028, U+2029, U+202F, U+205F and U+3000, which the
  string holds in UTF-8. A byte sequence that is not one of these encodings decodes to
  another rune or to \<open>utf8.RuneError\<close>, which is not a space, and stops the trimming.
\<close>

definition asciiSpace :: "char \<Rightarrow> bool" where
  "asciiSpace c = (c \<in> {CHR 0x09, CHR 0x0A, CHR 0x0B, CHR 0x0C, CHR 0x0D, CHR 0x20})"

definition unicodeSpaces :: "string list" where
  "unicodeSpaces =
     [[CHR 0xC2, CHR 0x85], [CHR 0xC2, CHR 0xA0], [CHR 0xE1, CHR 0x9A, CHR 0x80],
      [CHR 0xE2, CHR 0x80, CHR 0x80], [CHR 0xE2, CHR 0x80, CHR 0x81],
      [CHR 0xE2, CHR 0x80, CHR 0x82], [CHR 0xE2, CHR 0x80, CHR 0x83],
      [CHR 0xE2, CHR 0x80, CHR 0x84], [CHR 0xE2, CHR 0x80, CHR 0x85],
      [CHR 0xE2, CHR 0x80, CHR 0x86], [CHR 0xE2, CHR 0x80, CHR 0x87],
      [CHR 0xE2, CHR 0x80, CHR 0x88], [CHR 0xE2, CHR 0x80, CHR 0x89],
      [CHR 0xE2, CHR 0x80, CHR 0x8A], [CHR 0xE2, CHR 0x80, CHR 0xA8],
      [CHR 0xE2, CHR 0x80, CHR 0xA9], [CHR 0xE2, CHR 0x80, CHR 0xAF],
      [CHR 0xE2, CHR 0x81, CHR 0x9F], [CHR 0xE3, CHR 0x80, CHR 0x80]]"

text \<open>The width in bytes of the space at the start (at the end) of \<open>s\<close>; 0 when there is none.\<close>

definition leadingSpace :: "string \<Rightarrow> nat" where
  "leadingSpace s =
     (case s of
        [] \<Rightarrow> 0
      | c # _ \<Rightarrow>
          (if asciiSpace c then 1
           else (case find (\<lambda>w. strings_HasPrefix s w) unicodeSpaces of
                   None \<Rightarrow> 0 | Some w \<Rightarrow> length w)))"

definition trailingSpace :: "string \<Rightarrow> nat" where
  "trailingSpace s =
     (if s = [] then 0
      else if asciiSpace (last s) then 1
      else (case find (\<lambda>w. strings_HasSuffix s w) unicodeSpaces of
              None \<Rightarrow> 0 | Some w \<Rightarrow> length w))"

function trimLeftSpace :: "string \<Rightarrow> string" where
  "trimLeftSpace s =
     (if leadingSpace s = 0 then s else trimLeftSpace (drop (leadingSpace s) s))"
  by pat_completeness auto
termination
  by (relation "measure length") (auto simp: leadingSpace_def split: list.splits)

function trimRightSpace :: "string \<Rightarrow> string" where
  "trimRightSpace s =
     (if trailingSpace s = 0 then s
      else trimRightSpace (take (length s - trailingSpace s) s))"
  by pat_completeness auto
termination
  by (relation "measure length") (auto simp: trailingSpace_def split: if_splits)

definition strings_TrimSpace :: "string \<Rightarrow> string" where
  "strings_TrimSpace s = trimRightSpace (trimLeftSpace s)"

subsection \<open>Package \<open>net/url\<close>: \<open>Parse\<close>, \<open>Query\<close> and \<open>Encode\<close>\<close>

text \<open>
  \<open>Submit\<close> and \<open>GetHost\<close> call \<open>url.Parse\<close>, \<open>URL.Query\<close>, \<open>Values.Add\<close> and
  \<open>Values.Encode\<close> of the Go standard library. Their definitions follow the library's
  source (Go 1.21), function by function. The \<open>URL\<close> record has the fields that \<open>Parse\<close>
  fills, without \<open>RawPath\<close>, \<open>RawFragment\<close>, \<open>ForceQuery\<close> and \<open>OmitHost\<close>, which only
  \<open>URL.String\<close> reads.
\<close>

record URL =
  Scheme :: string
  Opaque :: string
  User :: "(string \<times> string option) option"
  Host :: string
  Path :: string
  RawQuery :: string
  Fragment :: string

definition emptyURL :: URL where
  "emptyURL = \<lparr>Scheme = [], Opaque = [], User = None, Host = [], Path = [], RawQuery = [],
     Fragment = []\<rparr>"

datatype encoding =
    encodePath | encodePathSegment | encodeHost | encodeZone | encodeUserPassword
  | encodeQueryComponent | encodeFragment

definition isLetter :: "char \<Rightarrow> bool" where
  "isLetter c = (isLowerASCII c \<or> isUpperASCII c)"

definition ishex :: "char \<Rightarrow> bool" where
  "ishex c = (isDigit c \<or> (CHR ''a'' \<le> c \<and> c \<le> CHR ''f'') \<or> (CHR ''A'' \<le> c \<and> c \<le> CHR ''F''))"

definition unhex :: "char \<Rightarrow> nat" where
  "unhex c =
     (if isDigit c then of_char c - of_char CHR ''0''
      else if CHR ''a'' \<le> c \<and> c \<le> CHR ''f'' then of_char c - of_char CHR ''a'' + 10
      else if CHR ''A'' \<le> c \<and> c \<le> CHR ''F'' then of_char c - of_char CHR ''A'' + 10
      else 0)"

definition upperhex :: "nat \<Rightarrow> char" where
  "upperhex n = ''0123456789ABCDEF'' ! n"

text \<open>\<open>shouldEscape(c, mode)\<close>; \<open>CHR 0x27\<close> is the single quote, \<open>CHR 0x22\<close> the double quote.\<close>

definition shouldEscape :: "char \<Rightarrow> encoding \<Rightarrow> bool" where
  "shouldEscape c mode =
     (if isLetter c \<or> isDigit c then False
      else if (mode = encodeHost \<or> mode = encodeZone)
          \<and> c \<in> set (''!$&()*+,;=:[]<>'' @ [CHR 0x27, CHR 0x22]) then False
      else if c \<in> set ''-_.~'' then False
      else if c \<in> set ''$&+,/:;=?@'' then
        (case mode of
           encodePath \<Rightarrow> c = CHR ''?''
         | encodePathSegment \<Rightarrow> c = CHR ''/'' \<or> c = CHR '';'' \<or> c = CHR '','' \<or> c = CHR ''?''
         | encodeUserPassword \<Rightarrow> c = CHR ''@'' \<or> c = CHR ''/'' \<or> c = CHR ''?'' \<or> c = CHR '':''
         | encodeQueryComponent \<Rightarrow> True
         | encodeFragment \<Rightarrow> False
         | _ \<Rightarrow> True)
      else if mode = encodeFragment \<and> c \<in> set ''!()*'' then False
      else True)"

text \<open>
  \<open>unescape(s, mode)\<close> makes two passes. The first checks that every \<open>%\<close> starts a
  well-formed escape that the mode allows, and that a host has no byte that would need
  escaping; the second decodes. (The library returns \<open>s\<close> at once when the first pass
  met no \<open>%\<close> and no \<open>+\<close> to turn into a space: the second pass returns the same.)
\<close>

fun unescape_check :: "string \<Rightarrow> encoding \<Rightarrow> error option" where
  "unescape_check [] mode = None"
| "unescape_check (c # s) mode =
     (if c = CHR ''%'' then
        (case s of
           h1 # h2 # s' \<Rightarrow>
             (if \<not> ishex h1 \<or> \<not> ishex h2 then Some (EscapeError [c, h1, h2])
              else if mode = encodeHost \<and> unhex h1 < 8 \<and> [c, h1, h2] \<noteq> ''%25''
                then Some (EscapeError [c, h1, h2])
              else if mode = encodeZone \<and> [c, h1, h2] \<noteq> ''%25''
                  \<and> char_of (unhex h1 * 16 + unhex h2) \<noteq> CHR '' ''
                  \<and> shouldEscape (char_of (unhex h1 * 16 + unhex h2)) encodeHost
                then Some (EscapeError [c, h1, h2])
              else unescape_check s' mode)
         | _ \<Rightarrow> Some (EscapeError (c # s)))
      else if c = CHR ''+'' then unescape_check s mode
      else if (mode = encodeHost \<or> mode = encodeZone) \<and> isASCII c \<and> shouldEscape c encodeHost
        then Some (InvalidHostError [c])
      else unescape_check s mode)"

fun unescape_decode :: "string \<Rightarrow> encoding \<Rightarrow> string" where
  "unescape_decode [] mode = []"
| "unescape_decode (c # s) mode =
     (if c = CHR ''%'' then
        (case s of
           h1 # h2 # s' \<Rightarrow> char_of (unhex h1 * 16 + unhex h2) # unescape_decode s' mode
         | _ \<Rightarrow> [])
      else if c = CHR ''+'' then
        (if mode = encodeQueryComponent then CHR '' '' else CHR ''+'') # unescape_decode s mode
      else c # unescape_decode s mode)"

definition unescape :: "string \<Rightarrow> encoding \<Rightarrow> error + string" where
  "unescape s mode =
     (case unescape_check s mode of Some e \<Rightarrow> Inl e | None \<Rightarrow> Inr (unescape_decode s mode))"

definition QueryUnescape :: "string \<Rightarrow> error + string" where
  "QueryUnescape s = unescape s encodeQueryComponent"

fun escape :: "string \<Rightarrow> encoding \<Rightarrow> string" where
  "escape [] mode = []"
| "escape (c # s) mode =
     (if shouldEscape c mode then
        (if c = CHR '' '' \<and> mode = encodeQueryComponent then CHR ''+'' # escape s mode
         else CHR ''%'' # upperhex (of_char c div 16) # upperhex (of_char c mod 16)
                # escape s mode)
      else c # escape s mode)"

definition QueryEscape :: "string \<Rightarrow> string" where
  "QueryEscape s = escape s encodeQueryComponent"

text \<open>
  \<open>getScheme(rawURL)\<close>: the loop over the index \<open>i\<close> is a recursion over the bytes from
  \<open>i\<close> on, with \<open>seen = rawURL[:i]\<close>, so that \<open>i == 0\<close> is \<open>seen = []\<close>.
\<close>

fun getScheme_loop :: "string \<Rightarrow> string \<Rightarrow> string \<Rightarrow> error + (string \<times> string)" where
  "getScheme_loop rawURL seen [] = Inr ([], rawURL)"
| "getScheme_loop rawURL seen (c # rest) =
     (if isLetter c then getScheme_loop rawURL (seen @ [c]) rest
      else if isDigit c \<or> c = CHR ''+'' \<or> c = CHR ''-'' \<or> c = CHR ''.'' then
        (if seen = [] then Inr ([], rawURL) else getScheme_loop rawURL (seen @ [c]) rest)
      else if c = CHR '':'' then
        (if seen = [] then Inl (ErrorString ''missing protocol scheme'') else Inr (seen, rest))
      else Inr ([], rawURL))"

definition getScheme :: "string \<Rightarrow> error + (string \<times> string)" where
  "getScheme rawURL = getScheme_loop rawURL [] rawURL"

definition stringContainsCTLByte :: "string \<Rightarrow> bool" where
  "stringContainsCTLByte s = list_ex (\<lambda>b. b < CHR '' '' \<or> b = CHR 0x7F) s"

definition validOptionalPort :: "string \<Rightarrow> bool" where
  "validOptionalPort port =
     (case port of
        [] \<Rightarrow> True
      | c # ds \<Rightarrow> (if c \<noteq> CHR '':'' then False else list_all isDigit ds))"

definition validUserinfo :: "string \<Rightarrow> bool" where
  "validUserinfo s =
     list_all (\<lambda>r. isLetter r \<or> isDigit r \<or> r \<in> set (''-._:~!$&()*+,;=%@'' @ [CHR 0x27])) s"

definition parseHost :: "string \<Rightarrow> error + string" where
  "parseHost host =
     (if strings_HasPrefix host ''['' then
        (case strings_LastIndex host '']'' of
           None \<Rightarrow> Inl (ErrorString ''missing ] in host'')
         | Some i \<Rightarrow>
             (if \<not> validOptionalPort (drop (i + 1) host)
                then Inl (InvalidPortError (drop (i + 1) host))
              else
                (case strings_Index (take i host) ''%25'' of
                   Some zone \<Rightarrow>
                     (case unescape (take zone host) encodeHost of
                        Inl e \<Rightarrow> Inl e
                      | Inr host1 \<Rightarrow>
                          (case unescape (drop zone (take i host)) encodeZone of
                             Inl e \<Rightarrow> Inl e
                           | Inr host2 \<Rightarrow>
                               (case unescape (drop i host) encodeHost of
                                  Inl e \<Rightarrow> Inl e
                                | Inr host3 \<Rightarrow> Inr (host1 @ host2 @ host3))))
                 | None \<Rightarrow> unescape host encodeHost)))
      else
        (case strings_LastIndex host '':'' of
           Some i \<Rightarrow>
             (if \<not> validOptionalPort (drop i host) then Inl (InvalidPortError (drop i host))
              else unescape host encodeHost)
         | None \<Rightarrow> unescape host encodeHost))"

definition parseAuthority :: "string \<Rightarrow> error + ((string \<times> string option) option \<times> string)" where
  "parseAuthority authority =
     (case strings_LastIndex authority ''@'' of
        None \<Rightarrow>
          (case parseHost authority of Inl e \<Rightarrow> Inl e | Inr host \<Rightarrow> Inr (None, host))
      | Some i \<Rightarrow>
          (case parseHost (drop (i + 1) authority) of
             Inl e \<Rightarrow> Inl e
           | Inr host \<Rightarrow>
               (let userinfo = take i authority in
                if \<not> validUserinfo userinfo then Inl (ErrorString ''net/url: invalid userinfo'')
                else if \<not> strings_Contains userinfo '':'' then
                  (case unescape userinfo encodeUserPassword of
                     Inl e \<Rightarrow> Inl e
                   | Inr username \<Rightarrow> Inr (Some (username, None), host))
                else
                  (case unescape (Cut_before userinfo '':'') encodeUserPassword of
                     Inl e \<Rightarrow> Inl e
                   | Inr username \<Rightarrow>
                       (case unescape (Cut_after userinfo '':'') encodeUserPassword of
                          Inl e \<Rightarrow> Inl e
                        | Inr password \<Rightarrow> Inr (Some (username, Some password), host))))))"

definition setPath :: "URL \<Rightarrow> string \<Rightarrow> error + URL" where
  "setPath u p =
     (case unescape p encodePath of Inl e \<Rightarrow> Inl e | Inr path \<Rightarrow> Inr (u\<lparr>Path := path\<rparr>))"

definition setFragment :: "URL \<Rightarrow> string \<Rightarrow> error + URL" where
  "setFragment u f =
     (case unescape f encodeFragment of Inl e \<Rightarrow> Inl e | Inr frag \<Rightarrow> Inr (u\<lparr>Fragment := frag\<rparr>))"

text \<open>
  \<open>parse(rawURL, viaRequest)\<close> with \<open>viaRequest = false\<close>, as \<open>Parse\<close> calls it. The
  scheme that \<open>getScheme\<close> returns has ASCII letters, digits and \<open>+-.\<close> only, so
  \<open>strings.ToLower\<close> maps it byte by byte.
\<close>

definition parse :: "string \<Rightarrow> error + URL" where
  "parse rawURL =
     (if stringContainsCTLByte rawURL
        then Inl (ErrorString ''net/url: invalid control character in URL'')
      else if rawURL = ''*'' then Inr (emptyURL\<lparr>Path := ''*''\<rparr>)
      else
        (case getScheme rawURL of
           Inl e \<Rightarrow> Inl e
         | Inr (scheme, rest0) \<Rightarrow>
             (let forceQuery = (strings_HasSuffix rest0 ''?'' \<and> count_list rest0 CHR ''?'' = 1);
                  rest = (if forceQuery then butlast rest0 else Cut_before rest0 ''?'');
                  u = emptyURL\<lparr>Scheme := map toLowerASCII scheme,
                        RawQuery := (if forceQuery then [] else Cut_after rest0 ''?'')\<rparr>
              in
                if \<not> strings_HasPrefix rest ''/'' \<and> Scheme u \<noteq> [] then Inr (u\<lparr>Opaque := rest\<rparr>)
                else if \<not> strings_HasPrefix rest ''/''
                    \<and> strings_Contains (Cut_before rest ''/'') '':''
                  then Inl (ErrorString ''first path segment in URL cannot contain colon'')
                else if (Scheme u \<noteq> [] \<or> \<not> strings_HasPrefix rest ''///'')
                    \<and> strings_HasPrefix rest ''//''
                  then
                    (let authority0 = drop 2 rest;
                         authority =
                           (case strings_Index authority0 ''/'' of
                              None \<Rightarrow> authority0 | Some i \<Rightarrow> take i authority0);
                         rest' =
                           (case strings_Index authority0 ''/'' of
                              None \<Rightarrow> [] | Some i \<Rightarrow> drop i authority0)
                     in case parseAuthority authority of
                          Inl e \<Rightarrow> Inl e
                        | Inr (user, host) \<Rightarrow> setPath (u\<lparr>User := user, Host := host\<rparr>) rest')
                else setPath u rest)))"

definition url_Parse :: "string \<Rightarrow> error + URL" where
  "url_Parse rawURL =
     (let u = Cut_before rawURL ''#''; frag = Cut_after rawURL ''#'' in
      case parse u of
        Inl err \<Rightarrow> Inl (UrlError ''parse'' u err)
      | Inr url \<Rightarrow>
          (if frag = [] then Inr url
           else (case setFragment url frag of
                   Inl err \<Rightarrow> Inl (UrlError ''parse'' rawURL err)
                 | Inr url' \<Rightarrow> Inr url')))"

text \<open>
  \<open>url.Values\<close>. \<open>Add\<close> is \<open>v[key] = append(v[key], value)\<close>: it panics on a nil map.
\<close>

definition Values_Add :: "gomap \<Rightarrow> string \<Rightarrow> string \<Rightarrow> error + gomap" where
  "Values_Add v key val =
     (case v of
        None \<Rightarrow> Inl (Panic ''assignment to entry in nil map'')
      | Some m \<Rightarrow> Inr (Some (map_set m key (map_index m key @ [val]))))"

text \<open>
  \<open>parseQuery(m, query)\<close> fills the map \<open>m\<close>; \<open>URL.Query\<close> calls it through
  \<open>ParseQuery\<close> on a fresh map and drops the error it returns, so the model keeps the map
  only: a pair with a semicolon or with a malformed escape is skipped.
\<close>

function parseQuery :: "entries \<Rightarrow> string \<Rightarrow> entries" where
  "parseQuery m query =
     (if query = [] then m
      else
        (let key = Cut_before query ''&''; query' = Cut_after query ''&'' in
         if strings_Contains key '';'' then parseQuery m query'
         else if key = [] then parseQuery m query'
         else
           (case QueryUnescape (Cut_before key ''='') of
              Inl err1 \<Rightarrow> parseQuery m query'
            | Inr k \<Rightarrow>
                (case QueryUnescape (Cut_after key ''='') of
                   Inl err1 \<Rightarrow> parseQuery m query'
                 | Inr val \<Rightarrow> parseQuery (map_set m k (map_index m k @ [val])) query'))))"
  by pat_completeness auto
termination
  by (relation "measure (\<lambda>(m, query). length query)")
     (auto simp: Cut_after_def split: option.splits)

definition URL_Query :: "URL \<Rightarrow> entries" where
  "URL_Query u = parseQuery [] (RawQuery u)"

text \<open>
  \<open>Values.Encode\<close>: the keys sorted, every value of a key written as \<open>key=value\<close> with
  both sides escaped, an \<open>&\<close> before every pair but the first. The two loops carry the
  buffer \<open>buf\<close>.
\<close>

fun Encode_values :: "string \<Rightarrow> string \<Rightarrow> string list \<Rightarrow> string" where
  "Encode_values buf keyEscaped [] = buf"
| "Encode_values buf keyEscaped (v # vs) =
     Encode_values
       ((if length buf > 0 then buf @ ''&'' else buf) @ keyEscaped @ ''='' @ QueryEscape v)
       keyEscaped vs"

fun Encode_keys :: "entries \<Rightarrow> string \<Rightarrow> string list \<Rightarrow> string" where
  "Encode_keys m buf [] = buf"
| "Encode_keys m buf (k # keys) =
     Encode_keys m (Encode_values buf (QueryEscape k) (map_index m k)) keys"

definition Values_Encode :: "gomap \<Rightarrow> string" where
  "Values_Encode v =
     (case v of
        None \<Rightarrow> []
      | Some m \<Rightarrow>
          (if length (remdups (map fst m)) = 0 then []
           else Encode_keys m [] (sort (remdups (map fst m)))))"

subsection \<open>Package \<open>net/http\<close>: headers, requests and the redirect loop\<close>

text \<open>
  \<open>validHeaderFieldByte\<close> is the token table of RFC 7230 (\<open>CHR 0x27\<close> is the single
  quote, \<open>CHR 0x60\<close> the backquote). \<open>textproto.CanonicalMIMEHeaderKey\<close> returns a key
  with a byte outside the table as it is, and otherwise makes the first letter and every
  letter after a hyphen upper case, all other letters lower case.
\<close>

definition validHeaderFieldByte :: "char \<Rightarrow> bool" where
  "validHeaderFieldByte c =
     (isLetter c \<or> isDigit c \<or> c \<in> set (''!#$%&*+-.^_|~'' @ [CHR 0x27, CHR 0x60]))"

fun canonicalMIMEHeaderKey :: "bool \<Rightarrow> string \<Rightarrow> string" where
  "canonicalMIMEHeaderKey upper [] = []"
| "canonicalMIMEHeaderKey upper (c # a) =
     (let c' = (if upper \<and> isLowerASCII c then toUpperASCII c
                else if \<not> upper \<and> isUpperASCII c then toLowerASCII c
                else c)
      in c' # canonicalMIMEHeaderKey (c' = CHR ''-'') a)"

definition CanonicalMIMEHeaderKey :: "string \<Rightarrow> string" where
  "CanonicalMIMEHeaderKey s =
     (if list_all validHeaderFieldByte s then canonicalMIMEHeaderKey True s else s)"

text \<open>\<open>Header.Add\<close> appends under the canonical key; it panics on a nil map.\<close>

definition Header_Add :: "gomap \<Rightarrow> string \<Rightarrow> string \<Rightarrow> error + gomap" where
  "Header_Add h key val =
     (case h of
        None \<Rightarrow> Inl (Panic ''assignment to entry in nil map'')
      | Some m \<Rightarrow>
          Inr (Some (map_set m (CanonicalMIMEHeaderKey key)
                       (map_index m (CanonicalMIMEHeaderKey key) @ [val]))))"

text \<open>
  The loop \<open>for k, v := range src { for _, each := range v { dst.Add(k, each) } }\<close>,
  which \<open>Submit\<close> runs four times; \<open>add\<close> is \<open>Values.Add\<close> or \<open>Header.Add\<close>.
\<close>

fun addEach ::
  "(gomap \<Rightarrow> string \<Rightarrow> string \<Rightarrow> error + gomap) \<Rightarrow> gomap \<Rightarrow> string \<Rightarrow> string list
     \<Rightarrow> error + gomap" where
  "addEach add dst k [] = Inr dst"
| "addEach add dst k (each # v) =
     (case add dst k each of Inl e \<Rightarrow> Inl e | Inr dst' \<Rightarrow> addEach add dst' k v)"

fun addAll ::
  "(gomap \<Rightarrow> string \<Rightarrow> string \<Rightarrow> error + gomap) \<Rightarrow> gomap \<Rightarrow> (string \<times> string list) list
     \<Rightarrow> error + gomap" where
  "addAll add dst [] = Inr dst"
| "addAll add dst ((k, v) # src) =
     (case addEach add dst k v of Inl e \<Rightarrow> Inl e | Inr dst' \<Rightarrow> addAll add dst' src)"

text \<open>
  The \<open>*http.Request\<close> that \<open>Submit\<close> builds: the method, the URL (kept as the text
  given to \<open>http.NewRequest\<close>), the header, the body and the context bound to it.
  A \<open>context.Context\<close> is a token with a number; the model does not cancel a call.
\<close>

datatype Context = Context nat

record http_Request =
  Method :: string
  URL :: string
  ReqHeader :: gomap
  ReqBody :: string
  Ctx :: "Context option"

text \<open>
  \<open>http.NewRequest\<close> fails on a method that is not a token and on a URL that
  \<open>url.Parse\<close> rejects; an empty method means \<open>GET\<close>.
\<close>

definition validMethod :: "string \<Rightarrow> bool" where
  "validMethod m = (length m > 0 \<and> list_all validHeaderFieldByte m)"

definition http_NewRequest :: "string \<Rightarrow> string \<Rightarrow> string \<Rightarrow> error + http_Request" where
  "http_NewRequest m url b =
     (let m' = (if m = [] then ''GET'' else m) in
      if \<not> validMethod m' then Inl (InvalidMethodError m')
      else
        (case url_Parse url of
           Inl err \<Rightarrow> Inl err
         | Inr u \<Rightarrow> Inr \<lparr>Method = m', URL = url, ReqHeader = Some [], ReqBody = b, Ctx = None\<rparr>))"

text \<open>
  The transport, as one call sees it: it answers a request, under the timeout of the
  call, with a response that ends the call, with a response that \<open>net/http\<close> takes as a
  redirect (the values are the \<open>Location\<close> header of the response, as the server sent it,
  and the follow-up request that \<open>net/http\<close> builds from it), or with an error.
\<close>

datatype roundTrip = Redirect string http_Request | Response rawResponse | Failure error

type_synonym roundTripper = "int \<Rightarrow> http_Request \<Rightarrow> roundTrip"

text \<open>
  The \<open>CheckRedirect\<close> closure of \<open>Submit\<close> (lines 586 to 594). It captures the local
  variable \<open>maxRedirects\<close> and decrements it: the model passes the variable in and
  returns it with the error (\<open>None\<close> is nil).
\<close>

definition CheckRedirect :: "int \<Rightarrow> error option \<times> int" where
  "CheckRedirect maxRedirects =
     (if maxRedirects \<le> 0 then (Some TooManyRedirects, maxRedirects)
      else (None, maxRedirects - 1))"

definition urlErrorOp :: "string \<Rightarrow> string" where
  "urlErrorOp m =
     (if m = [] then ''Get''
      else if list_all (\<lambda>c. CHR '' '' \<le> c \<and> c \<le> CHR ''~'') m
        then take 1 m @ map toLowerASCII (drop 1 m)
      else m)"

text \<open>
  \<open>http.Client.Do\<close> with this \<open>CheckRedirect\<close>: it sends the request; on a redirect it
  asks \<open>CheckRedirect\<close> and either stops with its error or sends the follow-up request.
  Both the error of \<open>CheckRedirect\<close> and an error of the transport come back wrapped in a
  \<open>*url.Error\<close> that names the method of the first request. Its URL is, for the error of
  \<open>CheckRedirect\<close>, the \<open>Location\<close> header of the redirect that was refused
  (\<open>ue.(*url.Error).URL = loc\<close>), and for an error of the transport the URL of the request
  that failed, as \<open>stripPassword\<close> prints it (\<open>URL.String\<close> with the password masked).
  \<open>URL.String\<close> is not modelled: \<open>stripPassword\<close> is a parameter, from the text of a URL to
  the text printed for it. The result also counts the redirects followed. The loop ends
  because every hop decrements the counter, and no hop is taken once the counter is not
  positive.
\<close>

function client_Do ::
  "(string \<Rightarrow> string) \<Rightarrow> roundTripper \<Rightarrow> int \<Rightarrow> int \<Rightarrow> string \<Rightarrow> http_Request \<Rightarrow> nat
     \<Rightarrow> (error + rawResponse) \<times> nat" where
  "client_Do stripPassword rt tmo maxRedirects op req hops =
     (case rt tmo req of
        Failure err \<Rightarrow> (Inl (UrlError op (stripPassword (URL req)) err), hops)
      | Response resp \<Rightarrow> (Inr resp, hops)
      | Redirect loc next \<Rightarrow>
          (if fst (CheckRedirect maxRedirects) \<noteq> None
             then (Inl (UrlError op loc (the (fst (CheckRedirect maxRedirects)))), hops)
           else client_Do stripPassword rt tmo (snd (CheckRedirect maxRedirects)) op next
                  (Suc hops)))"
  by pat_completeness auto
termination
  by (relation "measure (\<lambda>(sp, rt, tmo, maxRedirects, op, req, hops). nat maxRedirects)")
     (auto simp: CheckRedirect_def split: if_splits)

text \<open>\<open>errors.Is\<close>, which looks through the wrapper.\<close>

fun errors_Is :: "error \<Rightarrow> error \<Rightarrow> bool" where
  "errors_Is (UrlError op url err) target =
     (UrlError op url err = target \<or> errors_Is err target)"
| "errors_Is err target = (err = target)"

subsection \<open>The client profile (\<open>httpClient\<close>)\<close>

text \<open>
  \<open>time.Duration\<close> is a number of nanoseconds. A method named like a record field or
  like a method of another receiver carries its receiver as a prefix: \<open>client_Host\<close> is
  \<open>(*httpClient).Host\<close>.
\<close>

record httpClient =
  transport :: roundTripper
  host :: string
  urlPrefix :: string
  maxRedirects :: int
  timeout :: int
  userAgent :: string
  defaultHeaders :: gomap
  defaultQueries :: gomap

definition client_Transport :: "httpClient \<Rightarrow> roundTripper \<Rightarrow> httpClient" where
  "client_Transport c t = c\<lparr>transport := t\<rparr>"

definition GetTransport :: "httpClient \<Rightarrow> roundTripper" where
  "GetTransport c = transport c"

definition client_Host :: "httpClient \<Rightarrow> string \<Rightarrow> httpClient" where
  "client_Host c h = c\<lparr>host := strings_TrimSpace h\<rparr>"

definition GetHost :: "httpClient \<Rightarrow> string" where
  "GetHost c =
     (case url_Parse (host c) of
        Inl err \<Rightarrow> []
      | Inr url \<Rightarrow> Scheme url @ ''://'' @ Host url)"

definition client_UrlPrefix :: "httpClient \<Rightarrow> string \<Rightarrow> httpClient" where
  "client_UrlPrefix c prefix = c\<lparr>urlPrefix := strings_TrimSpace prefix\<rparr>"

definition GetUrlPrefix :: "httpClient \<Rightarrow> string" where
  "GetUrlPrefix c =
     (let prefix = urlPrefix c in
      if prefix = [] then [] else ''/'' @ strings_Trim prefix ''/'')"

definition client_MaxRedirects :: "httpClient \<Rightarrow> int \<Rightarrow> httpClient" where
  "client_MaxRedirects c n = c\<lparr>maxRedirects := n\<rparr>"

definition GetMaxRedirects :: "httpClient \<Rightarrow> int" where
  "GetMaxRedirects c = maxRedirects c"

definition client_Timeout :: "httpClient \<Rightarrow> int \<Rightarrow> httpClient" where
  "client_Timeout c t = c\<lparr>timeout := t\<rparr>"

definition GetTimeout :: "httpClient \<Rightarrow> int" where
  "GetTimeout c = timeout c"

definition client_UserAgent :: "httpClient \<Rightarrow> string \<Rightarrow> httpClient" where
  "client_UserAgent c ua = c\<lparr>userAgent := ua\<rparr>"

definition GetUserAgent :: "httpClient \<Rightarrow> string" where
  "GetUserAgent c = userAgent c"

definition WithDefaultHeaders :: "httpClient \<Rightarrow> gomap \<Rightarrow> httpClient" where
  "WithDefaultHeaders c hs = c\<lparr>defaultHeaders := hs\<rparr>"

definition DefaultHeaders :: "httpClient \<Rightarrow> gomap" where
  "DefaultHeaders c = defaultHeaders c"

definition WithDefaultQueries :: "httpClient \<Rightarrow> gomap \<Rightarrow> httpClient" where
  "WithDefaultQueries c qs = c\<lparr>defaultQueries := qs\<rparr>"

definition DefaultQueries :: "httpClient \<Rightarrow> gomap" where
  "DefaultQueries c = defaultQueries c"

record ClientConfig =
  cfg_Transport :: roundTripper
  cfg_Host :: string
  cfg_UrlPrefix :: string
  cfg_MaxRedirects :: int
  cfg_Timeout :: int
  cfg_UserAgent :: string

definition httpClientVersion :: string where
  "httpClientVersion = ''0.9''"

definition defaultUserAgent :: string where
  "defaultUserAgent = ''anik;go-http-client/'' @ httpClientVersion"

text \<open>
  \<open>DefaultClientConfig\<close> has a nil \<open>Transport\<close>, for which \<open>net/http\<close> takes
  \<open>http.DefaultTransport\<close>: the network, the parameter \<open>defaultTransport\<close> here.
\<close>

definition DefaultClientConfig :: "roundTripper \<Rightarrow> ClientConfig" where
  "DefaultClientConfig defaultTransport =
     \<lparr>cfg_Transport = defaultTransport, cfg_Host = [], cfg_UrlPrefix = [],
      cfg_MaxRedirects = 10, cfg_Timeout = 60 * 1000000000, cfg_UserAgent = defaultUserAgent\<rparr>"

definition NewHttpClient :: "ClientConfig option \<Rightarrow> error + httpClient" where
  "NewHttpClient config =
     (case config of
        None \<Rightarrow> Inl (ErrorString ''config is nil'')
      | Some cfg \<Rightarrow>
          Inr \<lparr>transport = cfg_Transport cfg, host = cfg_Host cfg, urlPrefix = cfg_UrlPrefix cfg,
               maxRedirects = cfg_MaxRedirects cfg, timeout = cfg_Timeout cfg,
               userAgent = cfg_UserAgent cfg, defaultHeaders = Some [],
               defaultQueries = Some []\<rparr>)"

definition HttpClientFor :: "roundTripper \<Rightarrow> string \<Rightarrow> string list \<Rightarrow> error + httpClient" where
  "HttpClientFor defaultTransport h prefixes =
     (case NewHttpClient (Some (DefaultClientConfig defaultTransport)) of
        Inl err \<Rightarrow> Inl err
      | Inr c \<Rightarrow>
          (let c1 = client_Host c h in
           if length prefixes > 0 then Inr (client_UrlPrefix c1 (hd prefixes)) else Inr c1))"

subsection \<open>The request composer (\<open>httpRequest\<close>)\<close>

text \<open>
  The fields \<open>userAgent\<close>, \<open>maxRedirects\<close> and \<open>timeout\<close> are pointers in the source
  (nil when not set): they are options. Fields named like a field of the client or of
  the response carry the prefix \<open>req_\<close>, and so does the field \<open>method\<close>, whose name
  is a keyword of Isabelle. The composer holds its client; \<open>Submit\<close> only reads it.
\<close>

record httpRequest =
  client :: httpClient
  req_userAgent :: "string option"
  ctx :: "Context option"
  req_maxRedirects :: "int option"
  req_timeout :: "int option"
  req_headers :: gomap
  queries :: gomap
  skipDefaultQueries :: bool
  req_body :: string
  skipDefaultHeaders :: bool
  req_method :: string
  path :: string

definition NewHttpRequest :: "httpClient \<Rightarrow> httpRequest" where
  "NewHttpRequest c =
     \<lparr>client = c, req_userAgent = None, ctx = None, req_maxRedirects = None,
      req_timeout = None, req_headers = Some [], queries = Some [],
      skipDefaultQueries = False, req_body = [], skipDefaultHeaders = False,
      req_method = [], path = []\<rparr>"

definition WithContext :: "httpRequest \<Rightarrow> Context option \<Rightarrow> httpRequest" where
  "WithContext r c = r\<lparr>ctx := c\<rparr>"

definition request_UserAgent :: "httpRequest \<Rightarrow> string \<Rightarrow> httpRequest" where
  "request_UserAgent r ua = r\<lparr>req_userAgent := Some ua\<rparr>"

definition request_MaxRedirects :: "httpRequest \<Rightarrow> int \<Rightarrow> httpRequest" where
  "request_MaxRedirects r mr = r\<lparr>req_maxRedirects := Some mr\<rparr>"

definition NoRedirect :: "httpRequest \<Rightarrow> httpRequest" where
  "NoRedirect r = r\<lparr>req_maxRedirects := Some 0\<rparr>"

definition request_Timeout :: "httpRequest \<Rightarrow> int \<Rightarrow> httpRequest" where
  "request_Timeout r t = r\<lparr>req_timeout := Some t\<rparr>"

definition NoTimeout :: "httpRequest \<Rightarrow> httpRequest" where
  "NoTimeout r = r\<lparr>req_timeout := None\<rparr>"

definition request_Headers :: "httpRequest \<Rightarrow> gomap \<Rightarrow> httpRequest" where
  "request_Headers r hs = r\<lparr>req_headers := hs\<rparr>"

text \<open>\<open>AddHeader\<close> panics when the headers of the composer are the nil map.\<close>

definition AddHeader :: "httpRequest \<Rightarrow> string \<Rightarrow> string \<Rightarrow> error + httpRequest" where
  "AddHeader r key val =
     (case Header_Add (req_headers r) key val of
        Inl e \<Rightarrow> Inl e
      | Inr hs \<Rightarrow> Inr (r\<lparr>req_headers := hs\<rparr>))"

definition SkipDefaultHeaders :: "httpRequest \<Rightarrow> httpRequest" where
  "SkipDefaultHeaders r = r\<lparr>skipDefaultHeaders := True\<rparr>"

definition request_Queries :: "httpRequest \<Rightarrow> gomap \<Rightarrow> httpRequest" where
  "request_Queries r qs = r\<lparr>queries := qs\<rparr>"

definition SkipDefaultQueries :: "httpRequest \<Rightarrow> httpRequest" where
  "SkipDefaultQueries r = r\<lparr>skipDefaultQueries := True\<rparr>"

definition request_Body :: "httpRequest \<Rightarrow> string \<Rightarrow> httpRequest" where
  "request_Body r b = r\<lparr>req_body := b\<rparr>"

definition request_Path :: "httpRequest \<Rightarrow> string \<Rightarrow> httpRequest" where
  "request_Path r p = r\<lparr>path := strings_TrimSpace p\<rparr>"

text \<open>
  \<open>strings.ToUpper\<close>, like \<open>strings.ToLower\<close>: byte by byte on an all-ASCII string, the
  parameter \<open>unicodeUpper\<close> on every other string.
\<close>

definition strings_ToUpper :: "(string \<Rightarrow> string) \<Rightarrow> string \<Rightarrow> string" where
  "strings_ToUpper unicodeUpper s =
     (if list_all isASCII s then map toUpperASCII s else unicodeUpper s)"

definition request_Method :: "(string \<Rightarrow> string) \<Rightarrow> httpRequest \<Rightarrow> string \<Rightarrow> httpRequest" where
  "request_Method unicodeUpper r m = r\<lparr>req_method := strings_ToUpper unicodeUpper m\<rparr>"

subsection \<open>Building the envelope (\<open>newHttpResponse\<close>)\<close>

text \<open>The loop \<open>for k, v := range response.Header { headers[strings.ToLower(k)] = v }\<close>.\<close>

fun lowerKeys :: "(string \<Rightarrow> string) \<Rightarrow> entries \<Rightarrow> (string \<times> string list) list \<Rightarrow> entries" where
  "lowerKeys unicodeLower hs [] = hs"
| "lowerKeys unicodeLower hs ((k, v) # rest) =
     lowerKeys unicodeLower (map_set hs (strings_ToLower unicodeLower k) v) rest"

definition newHttpResponse :: "(string \<Rightarrow> string) \<Rightarrow> rawResponse \<Rightarrow> error + httpResponse" where
  "newHttpResponse unicodeLower response =
     (case Body response of
        Inl err \<Rightarrow> Inl err
      | Inr b \<Rightarrow>
          Inr \<lparr>original = response, statusCode = StatusCode response, body = b,
               headers = Some (lowerKeys unicodeLower [] (gomap_range (Header response)))\<rparr>)"

subsection \<open>\<open>Submit\<close>\<close>

text \<open>
  \<open>Submit\<close> writes to the maps \<open>r.queries\<close> and \<open>r.headers\<close> of the composer: its local
  variables \<open>queries\<close> and \<open>headers\<close> are these same maps, and \<open>AddHeader\<close> adds to
  \<open>r.headers\<close>. The model therefore returns the composer as \<open>Submit\<close> leaves it, next to
  the result. It is written in four steps that follow the source from top to bottom;
  each step passes the composer on. The maps of the composer are taken to be other
  objects than the maps of its client, as \<open>NewHttpRequest\<close> and \<open>NewHttpClient\<close> make
  them. A panic is the only error of \<open>Add\<close>, on the nil map, which it leaves as it is.

  Lines 503 to 526: the host and the path. The result is \<open>(host, path)\<close>.
\<close>

definition Submit_path :: "httpRequest \<Rightarrow> (error + string \<times> string) \<times> httpRequest" where
  "Submit_path r =
     (let host = GetHost (client r) in
      if path r \<noteq> [] then
        (case url_Parse (strings_TrimPrefix (path r) ''/'') of
           Inl err \<Rightarrow> (Inl err, r)
         | Inr u \<Rightarrow>
             (let host' = (if Host u \<noteq> [] then Scheme u @ ''://'' @ Host u else host) in
              case addAll Values_Add (queries r) (map_range (URL_Query u)) of
                Inl e \<Rightarrow> (Inl e, r)
              | Inr qs \<Rightarrow> (Inr (host', ''/'' @ Path u), r\<lparr>queries := qs\<rparr>)))
      else (Inr (host, []), r))"

text \<open>Lines 528 to 541: the default queries and the URL.\<close>

definition Submit_url :: "httpRequest \<Rightarrow> (error + string) \<times> httpRequest" where
  "Submit_url r =
     (let prefix = GetUrlPrefix (client r) in
      case Submit_path r of
        (Inl err, r1) \<Rightarrow> (Inl err, r1)
      | (Inr (hst, pth), r1) \<Rightarrow>
          (case (if \<not> skipDefaultQueries r1
                 then addAll Values_Add (queries r1) (gomap_range (DefaultQueries (client r1)))
                 else Inr (queries r1)) of
             Inl e \<Rightarrow> (Inl e, r1)
           | Inr qs \<Rightarrow>
               (let qp = (if gomap_len qs > 0 then ''?'' @ Values_Encode qs else [])
                in (Inr (hst @ prefix @ pth @ qp), r1\<lparr>queries := qs\<rparr>))))"

text \<open>Lines 552 to 556: the user agent, added to the headers of the composer.\<close>

definition Submit_userAgent :: "httpRequest \<Rightarrow> error + httpRequest" where
  "Submit_userAgent r =
     (case req_userAgent r of
        Some ua \<Rightarrow> AddHeader r ''User-Agent'' ua
      | None \<Rightarrow>
          (if GetUserAgent (client r) \<noteq> [] then AddHeader r ''User-Agent'' (GetUserAgent (client r))
           else Inr r))"

text \<open>Lines 543 to 571: the outgoing request with its headers.\<close>

definition Submit_request :: "httpRequest \<Rightarrow> (error + http_Request) \<times> httpRequest" where
  "Submit_request r =
     (case Submit_url r of
        (Inl err, r1) \<Rightarrow> (Inl err, r1)
      | (Inr url, r1) \<Rightarrow>
          (case http_NewRequest (req_method r1) url (req_body r1) of
             Inl err \<Rightarrow> (Inl err, r1)
           | Inr req0 \<Rightarrow>
               (let req = (if ctx r1 \<noteq> None then req0\<lparr>Ctx := ctx r1\<rparr> else req0) in
                case Submit_userAgent r1 of
                  Inl e \<Rightarrow> (Inl e, r1)
                | Inr r2 \<Rightarrow>
                    (case (if \<not> skipDefaultHeaders r2
                           then addAll Header_Add (req_headers r2)
                                  (gomap_range (DefaultHeaders (client r2)))
                           else Inr (req_headers r2)) of
                       Inl e \<Rightarrow> (Inl e, r2)
                     | Inr hs \<Rightarrow>
                         (case addAll Header_Add (ReqHeader req) (gomap_range hs) of
                            Inl e \<Rightarrow> (Inl e, r2\<lparr>req_headers := hs\<rparr>)
                          | Inr h \<Rightarrow> (Inr (req\<lparr>ReqHeader := h\<rparr>), r2\<lparr>req_headers := hs\<rparr>))))))"

text \<open>
  Lines 573 to 603: the timeout and the redirect budget of this call, the call itself
  and the envelope. The local variable \<open>maxRedirects\<close>, which the \<open>CheckRedirect\<close>
  closure captures, is created here, in every call of \<open>Submit\<close>. The parameters are
  the Unicode table of \<open>strings.ToLower\<close>, for the envelope, and \<open>stripPassword\<close>, for
  \<open>http.Client.Do\<close>.
\<close>

definition Submit ::
  "(string \<Rightarrow> string) \<Rightarrow> (string \<Rightarrow> string) \<Rightarrow> httpRequest
     \<Rightarrow> (error + httpResponse) \<times> httpRequest" where
  "Submit unicodeLower stripPassword r =
     (case Submit_request r of
        (Inl err, r1) \<Rightarrow> (Inl err, r1)
      | (Inr req, r1) \<Rightarrow>
          (let tmo = (case req_timeout r1 of Some t \<Rightarrow> t | None \<Rightarrow> GetTimeout (client r1));
               maxRedirects =
                 (case req_maxRedirects r1 of
                    Some mr \<Rightarrow> mr | None \<Rightarrow> GetMaxRedirects (client r1))
           in case fst (client_Do stripPassword (GetTransport (client r1)) tmo maxRedirects
                          (urlErrorOp (Method req)) req 0) of
                Inl err \<Rightarrow> (Inl err, r1)
              | Inr response \<Rightarrow> (newHttpResponse unicodeLower response, r1)))"

text \<open>The verb shortcuts and \<open>Send\<close>: they set fields and submit.\<close>

definition Get ::
  "(string \<Rightarrow> string) \<Rightarrow> (string \<Rightarrow> string) \<Rightarrow> (string \<Rightarrow> string) \<Rightarrow> httpRequest
     \<Rightarrow> string list \<Rightarrow> (error + httpResponse) \<times> httpRequest" where
  "Get unicodeUpper unicodeLower stripPassword r p =
     (let r1 = request_Method unicodeUpper r ''GET'';
          r2 = (if length p > 0 then request_Path r1 (hd p) else r1)
      in Submit unicodeLower stripPassword r2)"

definition Post ::
  "(string \<Rightarrow> string) \<Rightarrow> (string \<Rightarrow> string) \<Rightarrow> (string \<Rightarrow> string) \<Rightarrow> httpRequest
     \<Rightarrow> string list \<Rightarrow> (error + httpResponse) \<times> httpRequest" where
  "Post unicodeUpper unicodeLower stripPassword r p =
     (let r1 = request_Method unicodeUpper r ''POST'';
          r2 = (if length p > 0 then request_Path r1 (hd p) else r1)
      in Submit unicodeLower stripPassword r2)"

definition Put ::
  "(string \<Rightarrow> string) \<Rightarrow> (string \<Rightarrow> string) \<Rightarrow> (string \<Rightarrow> string) \<Rightarrow> httpRequest
     \<Rightarrow> string list \<Rightarrow> (error + httpResponse) \<times> httpRequest" where
  "Put unicodeUpper unicodeLower stripPassword r p =
     (let r1 = request_Method unicodeUpper r ''PUT'';
          r2 = (if length p > 0 then request_Path r1 (hd p) else r1)
      in Submit unicodeLower stripPassword r2)"

definition Patch ::
  "(string \<Rightarrow> string) \<Rightarrow> (string \<Rightarrow> string) \<Rightarrow> (string \<Rightarrow> string) \<Rightarrow> httpRequest
     \<Rightarrow> string list \<Rightarrow> (error + httpResponse) \<times> httpRequest" where
  "Patch unicodeUpper unicodeLower stripPassword r p =
     (let r1 = request_Method unicodeUpper r ''PATCH'';
          r2 = (if length p > 0 then request_Path r1 (hd p) else r1)
      in Submit unicodeLower stripPassword r2)"

definition Delete ::
  "(string \<Rightarrow> string) \<Rightarrow> (string \<Rightarrow> string) \<Rightarrow> (string \<Rightarrow> string) \<Rightarrow> httpRequest
     \<Rightarrow> string list \<Rightarrow> (error + httpResponse) \<times> httpRequest" where
  "Delete unicodeUpper unicodeLower stripPassword r p =
     (let r1 = request_Method unicodeUpper r ''DELETE'';
          r2 = (if length p > 0 then request_Path r1 (hd p) else r1)
      in Submit unicodeLower stripPassword r2)"

definition Send ::
  "(string \<Rightarrow> string) \<Rightarrow> (string \<Rightarrow> string) \<Rightarrow> (string \<Rightarrow> string) \<Rightarrow> httpRequest
     \<Rightarrow> string \<Rightarrow> string \<Rightarrow> string \<Rightarrow> gomap \<Rightarrow> (error + httpResponse) \<times> httpRequest" where
  "Send unicodeUpper unicodeLower stripPassword r m p b hs =
     Submit unicodeLower stripPassword
       (request_Headers (request_Body (request_Path (request_Method unicodeUpper r m) p) b) hs)"

subsection \<open>Response chains\<close>

text \<open>
  The words of the spec about redirects: the response chain of a call that starts with
  the request \<open>req\<close> has exactly \<open>n\<close> redirect hops and ends with the response \<open>resp\<close>.
  \<open>hopRequest\<close> is the request that is sent after \<open>k\<close> hops of the chain, and
  \<open>hopLocation\<close> the \<open>Location\<close> header of the redirect that answers it.
\<close>

fun redirectChain :: "roundTripper \<Rightarrow> int \<Rightarrow> http_Request \<Rightarrow> nat \<Rightarrow> rawResponse \<Rightarrow> bool" where
  "redirectChain rt tmo req 0 resp = (rt tmo req = Response resp)"
| "redirectChain rt tmo req (Suc n) resp =
     (case rt tmo req of Redirect loc next \<Rightarrow> redirectChain rt tmo next n resp | _ \<Rightarrow> False)"

fun hopRequest :: "roundTripper \<Rightarrow> int \<Rightarrow> http_Request \<Rightarrow> nat \<Rightarrow> http_Request" where
  "hopRequest rt tmo req 0 = req"
| "hopRequest rt tmo req (Suc k) =
     (case rt tmo req of Redirect loc next \<Rightarrow> hopRequest rt tmo next k | _ \<Rightarrow> req)"

definition hopLocation :: "roundTripper \<Rightarrow> int \<Rightarrow> http_Request \<Rightarrow> nat \<Rightarrow> string" where
  "hopLocation rt tmo req k =
     (case rt tmo (hopRequest rt tmo req k) of Redirect loc next \<Rightarrow> loc | _ \<Rightarrow> [])"

text \<open>The redirect budget of a call: the override of the request if present, else the default of the profile.\<close>

definition effectiveMaxRedirects :: "httpRequest \<Rightarrow> int" where
  "effectiveMaxRedirects r =
     (case req_maxRedirects r of Some mr \<Rightarrow> mr | None \<Rightarrow> GetMaxRedirects (client r))"

definition effectiveTimeout :: "httpRequest \<Rightarrow> int" where
  "effectiveTimeout r =
     (case req_timeout r of Some t \<Rightarrow> t | None \<Rightarrow> GetTimeout (client r))"

subsection \<open>Query strings in words\<close>

text \<open>
  \<open>strings.Join\<close>, and the pairs \<open>key=value\<close> of a map in the order of the encoded query
  string: the keys sorted, the values of a key in the order of its slice.
\<close>

fun strings_Join :: "string list \<Rightarrow> string \<Rightarrow> string" where
  "strings_Join [] sep = []"
| "strings_Join [x] sep = x"
| "strings_Join (x # y # xs) sep = x @ sep @ strings_Join (y # xs) sep"

definition queryPairs :: "entries \<Rightarrow> string list" where
  "queryPairs m =
     concat (map (\<lambda>k. map (\<lambda>v. QueryEscape k @ ''='' @ QueryEscape v) (map_index m k))
               (sort (remdups (map fst m))))"

subsection \<open>Headers in words\<close>

text \<open>
  The values that a map holds under the keys whose canonical form is \<open>K\<close>, in the order
  of \<open>range\<close>; and the user agent that \<open>Submit\<close> adds: the override of the request if
  present, else the user agent of the profile if it is not empty.
\<close>

definition valuesUnder :: "gomap \<Rightarrow> string \<Rightarrow> string list" where
  "valuesUnder m K =
     concat (map snd (filter (\<lambda>p. CanonicalMIMEHeaderKey (fst p) = K) (gomap_range m)))"

definition userAgentValues :: "httpRequest \<Rightarrow> string list" where
  "userAgentValues r =
     (case req_userAgent r of
        Some ua \<Rightarrow> [ua]
      | None \<Rightarrow> (if GetUserAgent (client r) \<noteq> [] then [GetUserAgent (client r)] else []))"

subsection \<open>Host normalization in words\<close>

text \<open>
  Normalizing a host is storing it in a profile and reading it back. \<open>isScheme\<close> holds
  of the schemes that \<open>url.Parse\<close> returns when it returns one: a lower-case letter,
  followed by lower-case letters, digits and \<open>+-.\<close>. \<open>hostChar\<close> holds of the bytes that
  \<open>url.Parse\<close> accepts in a host as they are: every byte that is not ASCII, and the ASCII
  bytes that \<open>shouldEscape\<close> does not escape in a host.
\<close>

definition normalizeHost :: "httpClient \<Rightarrow> string \<Rightarrow> string" where
  "normalizeHost c h = GetHost (client_Host c h)"

definition schemeByte :: "char \<Rightarrow> bool" where
  "schemeByte c = (isLowerASCII c \<or> isDigit c \<or> c = CHR ''+'' \<or> c = CHR ''-'' \<or> c = CHR ''.'')"

definition isScheme :: "string \<Rightarrow> bool" where
  "isScheme s = (case s of [] \<Rightarrow> False | c # cs \<Rightarrow> isLowerASCII c \<and> list_all schemeByte cs)"

definition hostChar :: "char \<Rightarrow> bool" where
  "hostChar c = (\<not> isASCII c \<or> \<not> shouldEscape c encodeHost)"

subsection \<open>Paths in words\<close>

text \<open>
  The number of slashes that a path component begins with, and the paths that are empty
  or begin with a slash.
\<close>

definition leadingSlashes :: "string \<Rightarrow> nat" where
  "leadingSlashes s = length (takeWhile (\<lambda>c. c = CHR ''/'') s)"

definition slashed :: "string \<Rightarrow> bool" where
  "slashed p = (p = [] \<or> strings_HasPrefix p ''/'')"

section \<open>Example inputs\<close>

text \<open>
  The envelope of a response with header \<open>content-type: application/json; charset=utf-8\<close>
  and a body that the decoder would accept.
\<close>

definition charsetEnvelope :: httpResponse where
  "charsetEnvelope =
     \<lparr>original = \<lparr>StatusCode = 200, Header = None, Body = Inr ''{}''\<rparr>,
      statusCode = 200, body = ''{}'',
      headers = Some [(''content-type'', [''application/json; charset=utf-8''])]\<rparr>"

text \<open>A transport with the chain \<open>/0\<close>, \<open>/1\<close>, \<open>/2\<close>: two redirects, then a response.\<close>

definition okResponse :: rawResponse where
  "okResponse =
     \<lparr>StatusCode = 200, Header = Some [(''Content-Type'', [''application/json''])],
      Body = Inr ''{}''\<rparr>"

definition hopTransport :: roundTripper where
  "hopTransport tmo req =
     (if URL req = ''http://h.example/0''
        then Redirect ''http://h.example/1'' (req\<lparr>URL := ''http://h.example/1''\<rparr>)
      else if URL req = ''http://h.example/1''
        then Redirect ''http://h.example/2'' (req\<lparr>URL := ''http://h.example/2''\<rparr>)
      else Response okResponse)"

definition hopClient :: httpClient where
  "hopClient =
     \<lparr>transport = hopTransport, host = ''http://h.example'', urlPrefix = [], maxRedirects = 2,
      timeout = 0, userAgent = [], defaultHeaders = Some [], defaultQueries = Some []\<rparr>"

definition hopGet :: "string \<Rightarrow> httpRequest" where
  "hopGet p = (NewHttpRequest hopClient)\<lparr>req_method := ''GET'', path := p\<rparr>"

definition hopOut :: "string \<Rightarrow> http_Request" where
  "hopOut u = \<lparr>Method = ''GET'', URL = u, ReqHeader = Some [], ReqBody = [], Ctx = None\<rparr>"

text \<open>
  The profile of the end-to-end example of the spec, with a default query \<open>a=2\<close> added:
  host \<open>https://api.example.com\<close>, prefix \<open>v1\<close>, default header \<open>X-Key: secret\<close>.
\<close>

definition okTransport :: roundTripper where
  "okTransport tmo req = Response okResponse"

definition apiClient :: httpClient where
  "apiClient =
     \<lparr>transport = okTransport, host = ''https://api.example.com'', urlPrefix = ''v1'',
      maxRedirects = 10, timeout = 0, userAgent = ''ua'',
      defaultHeaders = Some [(''X-Key'', [''secret''])],
      defaultQueries = Some [(''a'', [''2''])]\<rparr>"

definition apiGet :: "string \<Rightarrow> httpRequest" where
  "apiGet p = (NewHttpRequest apiClient)\<lparr>req_method := ''GET'', path := p\<rparr>"

definition apiSkip :: httpRequest where
  "apiSkip = SkipDefaultHeaders (apiGet ''/users'')"

section \<open>Properties of the response envelope\<close>

lemma ToLower_content_type:
  "strings_ToLower unicodeLower ''content-type'' = ''content-type''"
  by (simp add: strings_ToLower_def isASCII_def toLowerASCII_def isUpperASCII_def)

lemma GetHeader_content_type:
  "GetHeader unicodeLower r ''content-type'' =
     (case gomap_get (headers r) ''content-type'' of
        None \<Rightarrow> Inr ('''', False)
      | Some [] \<Rightarrow> Inl (Panic ''index out of range [0] with length 0'')
      | Some (v # _) \<Rightarrow> Inr (v, True))"
  unfolding GetHeader_def ToLower_content_type by (simp split: option.splits list.splits)

text \<open>
  Claim C7. \<open>IsJsonResponse\<close> is true exactly when the lookup of \<open>content-type\<close> finds
  the literal \<open>application/json\<close> as first value (whatever the Unicode tables are, since the
  key is ASCII); it is false for \<open>application/json; charset=utf-8\<close> and when the header is
  absent; and whenever it is false \<open>ParseJson\<close> returns the error
  \<open>not a json response\<close> whatever the decoder is, that is without decoding the body.
\<close>

theorem IsJsonResponse_exact_literal:
  "(IsJsonResponse unicodeLower r = Inr True \<longleftrightarrow>
      GetHeader unicodeLower r ''content-type'' = Inr (''application/json'', True))
   \<and> (IsJsonResponse unicodeLower r = Inr True \<longleftrightarrow>
      (\<exists>vs. gomap_get (headers r) ''content-type'' = Some (''application/json'' # vs)))
   \<and> (GetHeader unicodeLower r ''content-type'' = Inr (''application/json; charset=utf-8'', True)
      \<longrightarrow> IsJsonResponse unicodeLower r = Inr False)
   \<and> (gomap_get (headers r) ''content-type'' = None
      \<longrightarrow> IsJsonResponse unicodeLower r = Inr False)
   \<and> (IsJsonResponse unicodeLower r = Inr False
      \<longrightarrow> ParseJson unicodeLower unmarshal r = Inl (ErrorString ''not a json response''))"
proof (intro conjI)
  show "IsJsonResponse unicodeLower r = Inr True \<longleftrightarrow>
      GetHeader unicodeLower r ''content-type'' = Inr (''application/json'', True)"
    by (auto simp: IsJsonResponse_def split: sum.splits prod.splits if_splits)
  show "IsJsonResponse unicodeLower r = Inr True \<longleftrightarrow>
      (\<exists>vs. gomap_get (headers r) ''content-type'' = Some (''application/json'' # vs))"
    unfolding IsJsonResponse_def GetHeader_content_type
    by (auto split: option.splits list.splits)
  show "GetHeader unicodeLower r ''content-type'' = Inr (''application/json; charset=utf-8'', True)
      \<longrightarrow> IsJsonResponse unicodeLower r = Inr False"
    by (simp add: IsJsonResponse_def)
  show "gomap_get (headers r) ''content-type'' = None
      \<longrightarrow> IsJsonResponse unicodeLower r = Inr False"
    unfolding IsJsonResponse_def GetHeader_content_type by simp
  show "IsJsonResponse unicodeLower r = Inr False
      \<longrightarrow> ParseJson unicodeLower unmarshal r = Inl (ErrorString ''not a json response'')"
    by (simp add: ParseJson_def)
qed

theorem IsJsonResponse_exact_literal_witness:
  "IsJsonResponse (\<lambda>s. s) charsetEnvelope = Inr False
   \<and> ParseJson (\<lambda>s. s) (\<lambda>b. Inr b) charsetEnvelope = Inl (ErrorString ''not a json response'')
   \<and> IsJsonResponse (\<lambda>s. s)
        (charsetEnvelope\<lparr>headers := Some [(''content-type'', [''application/json''])]\<rparr>) = Inr True"
proof -
  have g: "GetHeader (\<lambda>s. s) charsetEnvelope ''content-type''
             = Inr (''application/json; charset=utf-8'', True)"
    unfolding GetHeader_content_type
    by (simp add: charsetEnvelope_def gomap_get_def map_get_def)
  have f: "IsJsonResponse (\<lambda>s. s) charsetEnvelope = Inr False"
    using IsJsonResponse_exact_literal [of "\<lambda>s. s" charsetEnvelope] g by blast
  have p: "ParseJson (\<lambda>s. s) (\<lambda>b. Inr b) charsetEnvelope = Inl (ErrorString ''not a json response'')"
    using IsJsonResponse_exact_literal [of "\<lambda>s. s" charsetEnvelope "\<lambda>b. Inr b"] f by blast
  have t: "IsJsonResponse (\<lambda>s. s)
        (charsetEnvelope\<lparr>headers := Some [(''content-type'', [''application/json''])]\<rparr>) = Inr True"
  proof -
    have "\<exists>vs. gomap_get
        (headers (charsetEnvelope\<lparr>headers := Some [(''content-type'', [''application/json''])]\<rparr>))
        ''content-type'' = Some (''application/json'' # vs)"
      by (simp add: gomap_get_def map_get_def)
    then show ?thesis
      using IsJsonResponse_exact_literal
        [of "\<lambda>s. s" "charsetEnvelope\<lparr>headers := Some [(''content-type'', [''application/json''])]\<rparr>"]
      by blast
  qed
  from f p t show ?thesis by blast
qed

text \<open>
  Claim C8, as stated, fails: with a nil destination and an empty body \<open>ParseAs\<close>
  returns \<open>dest is nil\<close>, not the empty-body error, because the nil check comes first.
\<close>

theorem ParseAs_empty_body_nil_dest_counterexample:
  "ParseAs (\<lambda>s. s) (\<lambda>b (t::unit). None) (charsetEnvelope\<lparr>body := ''''\<rparr>) NilDest
     = Some (ErrorString ''dest is nil'')
   \<and> ParseAs (\<lambda>s. s) (\<lambda>b (t::unit). None) (charsetEnvelope\<lparr>body := ''''\<rparr>) NilDest
     \<noteq> Some (ErrorString ''body is empty'')"
  by (simp add: ParseAs_def)

text \<open>
  Claim C8, amended. A nil destination gives \<open>dest is nil\<close> whatever the body is. For
  every destination that is not nil, an empty body gives \<open>body is empty\<close> whatever the
  content type and the kind of the destination are. With a body, a destination that is
  not a pointer gives \<open>dest is not a pointer\<close>; a pointer and a response that is not JSON
  give \<open>not a json response\<close>; a pointer without \<open>json.Unmarshaler\<close> and a JSON response
  give \<open>dest does not implement json.Unmarshaler\<close>. The five errors are pairwise distinct.
\<close>

theorem ParseAs_failure_conditions:
  "ParseAs unicodeLower unmarshalInto r NilDest = Some (ErrorString ''dest is nil'')
   \<and> (body r = [] \<longrightarrow>
        ParseAs unicodeLower unmarshalInto r (Dest k isU t) = Some (ErrorString ''body is empty''))
   \<and> (body r \<noteq> [] \<and> k \<noteq> Ptr \<longrightarrow>
        ParseAs unicodeLower unmarshalInto r (Dest k isU t) = Some (ErrorString ''dest is not a pointer''))
   \<and> (body r \<noteq> [] \<and> IsJsonResponse unicodeLower r = Inr False \<longrightarrow>
        ParseAs unicodeLower unmarshalInto r (Dest Ptr isU t) = Some (ErrorString ''not a json response''))
   \<and> (body r \<noteq> [] \<and> IsJsonResponse unicodeLower r = Inr True \<longrightarrow>
        ParseAs unicodeLower unmarshalInto r (Dest Ptr False t)
          = Some (ErrorString ''dest does not implement json.Unmarshaler''))
   \<and> distinct [ErrorString ''dest is nil'', ErrorString ''body is empty'',
        ErrorString ''dest is not a pointer'', ErrorString ''not a json response'',
        ErrorString ''dest does not implement json.Unmarshaler'']"
  by (simp add: ParseAs_def)

theorem ParseAs_failure_conditions_witness:
  "ParseAs (\<lambda>s. s) (\<lambda>b (t::unit). None) (charsetEnvelope\<lparr>body := ''''\<rparr>) (Dest NotPtr False ())
     = Some (ErrorString ''body is empty'')
   \<and> ParseAs (\<lambda>s. s) (\<lambda>b (t::unit). None) charsetEnvelope (Dest NotPtr True ())
     = Some (ErrorString ''dest is not a pointer'')
   \<and> ParseAs (\<lambda>s. s) (\<lambda>b (t::unit). None) charsetEnvelope (Dest Ptr True ())
     = Some (ErrorString ''not a json response'')
   \<and> ParseAs (\<lambda>s. s) (\<lambda>b (t::unit). None)
        (charsetEnvelope\<lparr>headers := Some [(''content-type'', [''application/json''])]\<rparr>)
        (Dest Ptr False ())
     = Some (ErrorString ''dest does not implement json.Unmarshaler'')"
proof -
  let ?um = "\<lambda>b (t::unit). None :: error option"
  let ?json = "charsetEnvelope\<lparr>headers := Some [(''content-type'', [''application/json''])]\<rparr>"
  have b: "body charsetEnvelope \<noteq> []" "body ?json \<noteq> []"
    "body (charsetEnvelope\<lparr>body := ''''\<rparr>) = []"
    by (simp_all add: charsetEnvelope_def)
  have nj: "IsJsonResponse (\<lambda>s. s) charsetEnvelope = Inr False"
    unfolding IsJsonResponse_def GetHeader_content_type
    by (simp add: charsetEnvelope_def gomap_get_def map_get_def)
  have j: "IsJsonResponse (\<lambda>s. s) ?json = Inr True"
    unfolding IsJsonResponse_def GetHeader_content_type
    by (simp add: gomap_get_def map_get_def)
  show ?thesis
    using ParseAs_failure_conditions [of "\<lambda>s. s" ?um "charsetEnvelope\<lparr>body := ''''\<rparr>" NotPtr False "()"]
      ParseAs_failure_conditions [of "\<lambda>s. s" ?um charsetEnvelope NotPtr True "()"]
      ParseAs_failure_conditions [of "\<lambda>s. s" ?um charsetEnvelope Ptr True "()"]
      ParseAs_failure_conditions [of "\<lambda>s. s" ?um ?json Ptr False "()"]
      b nj j
    by blast
qed

section \<open>What \<open>Submit\<close> changes in the composer\<close>

text \<open>Every step of \<open>Submit\<close> leaves all fields of the composer but \<open>queries\<close> and \<open>req_headers\<close> as they are.\<close>

lemma Submit_path_frame: "Submit_path r = (x, r1) \<Longrightarrow> \<exists>qs. r1 = r\<lparr>queries := qs\<rparr>"
proof -
  assume a: "Submit_path r = (x, r1)"
  have "r1 = r \<or> (\<exists>qs. r1 = r\<lparr>queries := qs\<rparr>)"
    using a by (auto simp: Submit_path_def Let_def split: if_splits sum.splits)
  moreover have "r = r\<lparr>queries := queries r\<rparr>" by simp
  ultimately show ?thesis by metis
qed

lemma Submit_url_frame: "Submit_url r = (x, r1) \<Longrightarrow> \<exists>qs. r1 = r\<lparr>queries := qs\<rparr>"
proof -
  assume a: "Submit_url r = (x, r1)"
  obtain y r0 where p: "Submit_path r = (y, r0)" by (cases "Submit_path r")
  then obtain q0 where r0: "r0 = r\<lparr>queries := q0\<rparr>" using Submit_path_frame by blast
  have "r1 = r0 \<or> (\<exists>qs. r1 = r0\<lparr>queries := qs\<rparr>)"
    using a p by (auto simp: Submit_url_def Let_def split: if_splits sum.splits prod.splits)
  then show ?thesis using r0 by auto
qed

lemma Submit_userAgent_frame: "Submit_userAgent r = Inr r2 \<Longrightarrow> \<exists>hs. r2 = r\<lparr>req_headers := hs\<rparr>"
proof -
  assume a: "Submit_userAgent r = Inr r2"
  have "r2 = r \<or> (\<exists>hs. r2 = r\<lparr>req_headers := hs\<rparr>)"
    using a by (auto simp: Submit_userAgent_def AddHeader_def split: if_splits sum.splits option.splits)
  moreover have "r = r\<lparr>req_headers := req_headers r\<rparr>" by simp
  ultimately show ?thesis by metis
qed

lemma Submit_request_frame:
  "Submit_request r = (x, r1) \<Longrightarrow> \<exists>qs hs. r1 = r\<lparr>queries := qs, req_headers := hs\<rparr>"
proof -
  assume a: "Submit_request r = (x, r1)"
  obtain y r0 where p: "Submit_url r = (y, r0)" by (cases "Submit_url r")
  then obtain q0 where r0: "r0 = r\<lparr>queries := q0\<rparr>" using Submit_url_frame by blast
  have "r1 = r0 \<or> (\<exists>r2. Submit_userAgent r0 = Inr r2 \<and> (r1 = r2 \<or> (\<exists>hs. r1 = r2\<lparr>req_headers := hs\<rparr>)))"
    using a p by (auto simp: Submit_request_def Let_def split: if_splits sum.splits prod.splits)
  then consider "r1 = r0" | hs where "r1 = r0\<lparr>req_headers := hs\<rparr>"
    using Submit_userAgent_frame by fastforce
  then show ?thesis
  proof cases
    case 1
    have "r0 = r\<lparr>queries := q0, req_headers := req_headers r\<rparr>" using r0 by simp
    then show ?thesis using 1 by blast
  next
    case 2
    then show ?thesis using r0 by blast
  qed
qed

lemma Submit_frame:
  "Submit uni sp r = (x, r1) \<Longrightarrow> \<exists>qs hs. r1 = r\<lparr>queries := qs, req_headers := hs\<rparr>"
proof -
  assume a: "Submit uni sp r = (x, r1)"
  obtain y r0 where p: "Submit_request r = (y, r0)" by (cases "Submit_request r")
  have "r1 = r0" using a p by (auto simp: Submit_def Let_def split: sum.splits)
  then show ?thesis using Submit_request_frame [OF p] by simp
qed

section \<open>The redirect budget\<close>

lemma client_Do_chain:
  "redirectChain rt tmo req n resp \<Longrightarrow> int n \<le> budget \<Longrightarrow>
     client_Do sp rt tmo budget op req hops = (Inr resp, hops + n)"
proof (induction n arbitrary: req budget hops)
  case 0
  then show ?case by simp
next
  case (Suc n)
  then obtain loc nxt where nx: "rt tmo req = Redirect loc nxt" "redirectChain rt tmo nxt n resp"
    by (auto split: roundTrip.splits)
  have c: "CheckRedirect budget = (None, budget - 1)" using Suc.prems by (simp add: CheckRedirect_def)
  have "client_Do sp rt tmo (budget - 1) op nxt (Suc hops) = (Inr resp, Suc hops + n)"
    using Suc.IH [OF nx(2), of "budget - 1" "Suc hops"] Suc.prems by simp
  then show ?case using nx c by simp
qed

lemma client_Do_exhausted:
  "redirectChain rt tmo req n resp \<Longrightarrow> 0 \<le> budget \<Longrightarrow> budget < int n \<Longrightarrow>
     client_Do sp rt tmo budget op req hops
       = (Inl (UrlError op (hopLocation rt tmo req (nat budget)) TooManyRedirects),
          hops + nat budget)"
proof (induction n arbitrary: req budget hops)
  case 0
  then show ?case by simp
next
  case (Suc n)
  then obtain loc nxt where nx: "rt tmo req = Redirect loc nxt" "redirectChain rt tmo nxt n resp"
    by (auto split: roundTrip.splits)
  show ?case
  proof (cases "budget = 0")
    case True
    then show ?thesis using nx by (simp add: CheckRedirect_def hopLocation_def)
  next
    case False
    then have c: "CheckRedirect budget = (None, budget - 1)" using Suc.prems by (simp add: CheckRedirect_def)
    have b: "0 \<le> budget - 1" "budget - 1 < int n" using False Suc.prems by auto
    have s: "nat budget = Suc (nat (budget - 1))" using False Suc.prems by auto
    have "client_Do sp rt tmo (budget - 1) op nxt (Suc hops)
       = (Inl (UrlError op (hopLocation rt tmo nxt (nat (budget - 1))) TooManyRedirects),
          Suc hops + nat (budget - 1))"
      using Suc.IH [OF nx(2) b, of "Suc hops"] .
    then show ?thesis using nx c s by (simp add: hopLocation_def)
  qed
qed

lemma Submit_request_keeps:
  assumes "Submit_request r = (x, r1)"
  shows "client r1 = client r" and "req_maxRedirects r1 = req_maxRedirects r"
    and "req_timeout r1 = req_timeout r"
  using Submit_request_frame [OF assms] by auto

lemma Submit_as_client_Do:
  assumes "fst (Submit_request r) = Inr req"
  shows "fst (Submit unicodeLower sp r) =
     (case fst (client_Do sp (GetTransport (client r)) (effectiveTimeout r)
                  (effectiveMaxRedirects r) (urlErrorOp (Method req)) req 0) of
        Inl err \<Rightarrow> Inl err
      | Inr response \<Rightarrow> newHttpResponse unicodeLower response)"
proof -
  obtain r1 where p: "Submit_request r = (Inr req, r1)"
    using assms by (cases "Submit_request r") auto
  obtain qs hs where r1: "r1 = r\<lparr>queries := qs, req_headers := hs\<rparr>"
    using Submit_request_frame [OF p] by blast
  show ?thesis
    unfolding Submit_def p r1 effectiveTimeout_def effectiveMaxRedirects_def
    by (simp add: Let_def del: client_Do.simps cong: option.case_cong split: sum.split)
qed

text \<open>
  Claim C2. Let the composer build its outgoing request, and let its redirect budget (the
  override of the request if present, else the default of the profile) be \<open>N \<ge> 0\<close>.
  If the response chain has exactly \<open>N\<close> redirects, \<open>Submit\<close> follows the \<open>N\<close> hops and
  returns the envelope of the final response (an envelope indeed, when the body can be
  read). If the chain has \<open>N + 1\<close> redirects, \<open>Submit\<close> fails with \<open>TooManyRedirects\<close>
  after exactly \<open>N\<close> hops: with budget 0 the first redirect fails with no hop taken. The
  error comes back as \<open>net/http\<close> wraps it, in a \<open>*url.Error\<close> with the \<open>Location\<close> of the
  redirect that was refused, which is the redirect that answers the request sent after
  \<open>N\<close> hops.
\<close>

theorem Submit_redirect_budget:
  assumes "fst (Submit_request r) = Inr req" and "effectiveMaxRedirects r = int N"
  shows
    "(redirectChain (GetTransport (client r)) (effectiveTimeout r) req N resp \<longrightarrow>
        fst (Submit unicodeLower stripPassword r) = newHttpResponse unicodeLower resp
        \<and> (\<forall>b. Body resp = Inr b \<longrightarrow>
              (\<exists>env. fst (Submit unicodeLower stripPassword r) = Inr env))
        \<and> snd (client_Do stripPassword (GetTransport (client r)) (effectiveTimeout r) (int N)
                 (urlErrorOp (Method req)) req 0) = N)
     \<and> (redirectChain (GetTransport (client r)) (effectiveTimeout r) req (Suc N) resp \<longrightarrow>
        fst (Submit unicodeLower stripPassword r) =
          Inl (UrlError (urlErrorOp (Method req))
                 (hopLocation (GetTransport (client r)) (effectiveTimeout r) req N)
                 TooManyRedirects)
        \<and> (\<exists>err. fst (Submit unicodeLower stripPassword r) = Inl err
              \<and> errors_Is err TooManyRedirects)
        \<and> snd (client_Do stripPassword (GetTransport (client r)) (effectiveTimeout r) (int N)
                 (urlErrorOp (Method req)) req 0) = N)"
proof (intro conjI impI)
  let ?rt = "GetTransport (client r)" and ?t = "effectiveTimeout r"
  let ?op = "urlErrorOp (Method req)"
  let ?S = "Submit unicodeLower stripPassword r"
  note s = Submit_as_client_Do [OF assms(1), of unicodeLower stripPassword, unfolded assms(2)]
  {
    assume c: "redirectChain ?rt ?t req N resp"
    have d: "client_Do stripPassword ?rt ?t (int N) ?op req 0 = (Inr resp, N)"
      using client_Do_chain [OF c, of "int N" stripPassword ?op 0] by simp
    show "fst ?S = newHttpResponse unicodeLower resp"
      using s d by simp
    then show "\<forall>b. Body resp = Inr b \<longrightarrow> (\<exists>env. fst ?S = Inr env)"
      by (simp add: newHttpResponse_def)
    show "snd (client_Do stripPassword ?rt ?t (int N) ?op req 0) = N"
      using d by simp
  }
  {
    assume c: "redirectChain ?rt ?t req (Suc N) resp"
    have d: "client_Do stripPassword ?rt ?t (int N) ?op req 0
        = (Inl (UrlError ?op (hopLocation ?rt ?t req N) TooManyRedirects), N)"
      using client_Do_exhausted [OF c, of "int N" stripPassword ?op 0] by simp
    show e: "fst ?S = Inl (UrlError ?op (hopLocation ?rt ?t req N) TooManyRedirects)"
      using s d by simp
    show "\<exists>err. fst ?S = Inl err \<and> errors_Is err TooManyRedirects"
      using e by simp
    show "snd (client_Do stripPassword ?rt ?t (int N) ?op req 0) = N"
      using d by simp
  }
qed

theorem Submit_redirect_budget_witness:
  "fst (Submit (\<lambda>s. s) (\<lambda>s. s) (hopGet ''/0'')) = newHttpResponse (\<lambda>s. s) okResponse
   \<and> (\<exists>env. fst (Submit (\<lambda>s. s) (\<lambda>s. s) (hopGet ''/0'')) = Inr env)
   \<and> fst (Submit (\<lambda>s. s) (\<lambda>s. s) (request_MaxRedirects (hopGet ''/0'') 1))
        = Inl (UrlError ''Get'' ''http://h.example/2'' TooManyRedirects)
   \<and> fst (Submit (\<lambda>s. s) (\<lambda>s. s) (NoRedirect (hopGet ''/1'')))
        = Inl (UrlError ''Get'' ''http://h.example/2'' TooManyRedirects)
   \<and> snd (client_Do (\<lambda>s. s) hopTransport 0 0 ''Get'' (hopOut ''http://h.example/1'') 0) = 0"
proof -
  have r0: "fst (Submit_request (hopGet ''/0'')) = Inr (hopOut ''http://h.example/0'')"
    by code_simp
  have r1: "fst (Submit_request (request_MaxRedirects (hopGet ''/0'') 1))
      = Inr (hopOut ''http://h.example/0'')"
    by code_simp
  have r2: "fst (Submit_request (NoRedirect (hopGet ''/1''))) = Inr (hopOut ''http://h.example/1'')"
    by code_simp
  have b0: "effectiveMaxRedirects (hopGet ''/0'') = int 2"
    and b1: "effectiveMaxRedirects (request_MaxRedirects (hopGet ''/0'') 1) = int 1"
    and b2: "effectiveMaxRedirects (NoRedirect (hopGet ''/1'')) = int 0"
    by code_simp+
  have c0: "redirectChain (GetTransport (client (hopGet ''/0''))) (effectiveTimeout (hopGet ''/0''))
        (hopOut ''http://h.example/0'') 2 okResponse"
    and c1: "redirectChain (GetTransport (client (request_MaxRedirects (hopGet ''/0'') 1)))
        (effectiveTimeout (request_MaxRedirects (hopGet ''/0'') 1))
        (hopOut ''http://h.example/0'') (Suc 1) okResponse"
    and c2: "redirectChain (GetTransport (client (NoRedirect (hopGet ''/1''))))
        (effectiveTimeout (NoRedirect (hopGet ''/1'')))
        (hopOut ''http://h.example/1'') (Suc 0) okResponse"
    by code_simp+
  have v: "GetTransport (client (NoRedirect (hopGet ''/1''))) = hopTransport"
    by (simp add: NoRedirect_def hopGet_def NewHttpRequest_def hopClient_def GetTransport_def)
  have w: "effectiveTimeout (NoRedirect (hopGet ''/1'')) = 0"
    "urlErrorOp (Method (hopOut ''http://h.example/1'')) = ''Get''"
    "urlErrorOp (Method (hopOut ''http://h.example/0'')) = ''Get''"
    "hopLocation (GetTransport (client (request_MaxRedirects (hopGet ''/0'') 1)))
        (effectiveTimeout (request_MaxRedirects (hopGet ''/0'') 1))
        (hopOut ''http://h.example/0'') 1 = ''http://h.example/2''"
    "hopLocation hopTransport 0 (hopOut ''http://h.example/1'') 0 = ''http://h.example/2''"
    "Body okResponse = Inr ''{}''"
    by code_simp+
  note A = Submit_redirect_budget [OF r0 b0, of okResponse "\<lambda>s. s" "\<lambda>s. s"]
  note B = Submit_redirect_budget [OF r1 b1, of okResponse "\<lambda>s. s" "\<lambda>s. s"]
  note C = Submit_redirect_budget [OF r2 b2, of okResponse "\<lambda>s. s" "\<lambda>s. s"]
  have a1: "fst (Submit (\<lambda>s. s) (\<lambda>s. s) (hopGet ''/0'')) = newHttpResponse (\<lambda>s. s) okResponse"
    using A c0 by blast
  have a2: "\<exists>env. fst (Submit (\<lambda>s. s) (\<lambda>s. s) (hopGet ''/0'')) = Inr env"
    using A c0 w(6) by blast
  have b: "fst (Submit (\<lambda>s. s) (\<lambda>s. s) (request_MaxRedirects (hopGet ''/0'') 1))
        = Inl (UrlError ''Get'' ''http://h.example/2'' TooManyRedirects)"
    using B c1 unfolding w by blast
  have c: "fst (Submit (\<lambda>s. s) (\<lambda>s. s) (NoRedirect (hopGet ''/1'')))
        = Inl (UrlError ''Get'' ''http://h.example/2'' TooManyRedirects)"
    "snd (client_Do (\<lambda>s. s) hopTransport 0 (int 0) ''Get'' (hopOut ''http://h.example/1'') 0) = 0"
    using C c2 unfolding v w by blast+
  show ?thesis
    using a1 a2 b c by (simp del: client_Do.simps)
qed

section \<open>Host normalization\<close>

text \<open>
  Claim C5, as stated, fails: the host \<open>example.com\<close> has no scheme and no authority,
  yet \<open>url.Parse\<close> accepts it (as a path), and \<open>GetHost\<close> returns \<open>://\<close>, not the empty
  string.
\<close>

theorem GetHost_no_scheme_counterexample:
  "url_Parse ''example.com'' = Inr (emptyURL\<lparr>Path := ''example.com''\<rparr>)
   \<and> GetHost (client_Host hopClient ''example.com'') = ''://''
   \<and> GetHost (client_Host hopClient ''example.com'') \<noteq> []"
  by code_simp

text \<open>
  Claim C5, amended. \<open>GetHost\<close> raises no error. When \<open>url.Parse\<close> accepts the stored
  host, \<open>GetHost\<close> returns the scheme, \<open>://\<close> and the host of the parsed URL, whichever of
  the two is empty; it returns the empty string exactly when \<open>url.Parse\<close> rejects the
  stored host.
\<close>

theorem GetHost_normalization:
  "(url_Parse (host c) = Inr u \<longrightarrow> GetHost c = Scheme u @ ''://'' @ Host u)
   \<and> (GetHost c = [] \<longleftrightarrow> (\<exists>err. url_Parse (host c) = Inl err))"
  by (cases "url_Parse (host c)") (simp_all add: GetHost_def)

theorem GetHost_normalization_witness:
  "GetHost (client_Host hopClient ''  https://api.example.com/v1?x=1 '') = ''https://api.example.com''
   \<and> GetHost (client_Host hopClient ''://'') = []"
proof -
  have p: "url_Parse (host (client_Host hopClient ''  https://api.example.com/v1?x=1 ''))
      = Inr (emptyURL\<lparr>Scheme := ''https'', Host := ''api.example.com'', Path := ''/v1'',
               RawQuery := ''x=1''\<rparr>)"
    by code_simp
  have q: "url_Parse (host (client_Host hopClient ''://''))
      = Inl (UrlError ''parse'' ''://'' (ErrorString ''missing protocol scheme''))"
    by code_simp
  have "GetHost (client_Host hopClient ''  https://api.example.com/v1?x=1 '')
      = ''https://api.example.com''"
    using GetHost_normalization
      [of "client_Host hopClient ''  https://api.example.com/v1?x=1 ''"
          "emptyURL\<lparr>Scheme := ''https'', Host := ''api.example.com'', Path := ''/v1'',
               RawQuery := ''x=1''\<rparr>"] p
    by (simp add: emptyURL_def)
  moreover have "GetHost (client_Host hopClient ''://'') = []"
    using GetHost_normalization [of "client_Host hopClient ''://''"] q by blast
  ultimately show ?thesis by blast
qed

section \<open>Adding to a map, and the URL that \<open>Submit\<close> resolves\<close>

lemma map_index_map_set:
  "map_index (map_set m k v) k' = (if k' = k then v else map_index m k')"
  by (induction m) (auto simp: map_index_def map_get_def)

lemma keys_map_set: "set (map fst (map_set m k v)) = insert k (set (map fst m))"
proof (induction m)
  case Nil
  then show ?case by simp
next
  case (Cons p m)
  obtain a b where p: "p = (a, b)" by (cases p)
  show ?case
  proof (cases "a = k")
    case True
    then show ?thesis using p by simp
  next
    case False
    have "set (map fst (map_set (p # m) k v)) = insert a (set (map fst (map_set m k v)))"
      using False p by simp
    also have "\<dots> = insert a (insert k (set (map fst m)))"
      using Cons.IH by simp
    also have "\<dots> = insert k (set (map fst (p # m)))"
      using p by (simp add: insert_commute)
    finally show ?thesis .
  qed
qed

text \<open>
  \<open>Values.Add\<close> and \<open>Header.Add\<close> both append a value under the key \<open>f k\<close>: \<open>f\<close> is the
  identity for \<open>Values.Add\<close> and \<open>CanonicalMIMEHeaderKey\<close> for \<open>Header.Add\<close>.
\<close>

lemma appends_Values:
  "Values_Add (Some m) k v = Inr (Some (map_set m k (map_index m k @ [v])))"
  by (simp add: Values_Add_def)

lemma appends_Header:
  "Header_Add (Some m) k v
     = Inr (Some (map_set m (CanonicalMIMEHeaderKey k) (map_index m (CanonicalMIMEHeaderKey k) @ [v])))"
  by (simp add: Header_Add_def)

lemma addEach_appends:
  assumes "\<And>m k v. add (Some m) k v = Inr (Some (map_set m (f k) (map_index m (f k) @ [v])))"
  shows "\<exists>m'. addEach add (Some m) k vs = Inr (Some m')
     \<and> (\<forall>k'. map_index m' k' = (if k' = f k then map_index m k' @ vs else map_index m k'))
     \<and> set (map fst m') = set (map fst m) \<union> (if vs = [] then {} else {f k})"
proof (induction vs arbitrary: m)
  case Nil
  then show ?case by simp
next
  case (Cons v vs)
  let ?m1 = "map_set m (f k) (map_index m (f k) @ [v])"
  obtain m' where m': "addEach add (Some ?m1) k vs = Inr (Some m')"
    "\<forall>k'. map_index m' k' = (if k' = f k then map_index ?m1 k' @ vs else map_index ?m1 k')"
    "set (map fst m') = set (map fst ?m1) \<union> (if vs = [] then {} else {f k})"
    using Cons.IH [of ?m1] by blast
  have a: "add (Some m) k v = Inr (Some ?m1)"
    using assms by simp
  have "addEach add (Some m) k (v # vs) = Inr (Some m')"
    using m'(1) a by simp
  moreover have "\<forall>k'. map_index m' k' = (if k' = f k then map_index m k' @ v # vs else map_index m k')"
    using m'(2) by (simp add: map_index_map_set)
  moreover have "set (map fst m') = set (map fst m) \<union> {f k}"
    using m'(3) unfolding keys_map_set by (simp split: if_splits add: insert_absorb)
  ultimately show ?case by auto
qed

lemma addAll_appends:
  assumes "\<And>m k v. add (Some m) k v = Inr (Some (map_set m (f k) (map_index m (f k) @ [v])))"
  shows "\<exists>m'. addAll add (Some m) src = Inr (Some m')
     \<and> (\<forall>k. map_index m' k = map_index m k @ concat (map snd (filter (\<lambda>p. f (fst p) = k) src)))
     \<and> set (map fst m') = set (map fst m) \<union> {f k |k vs. (k, vs) \<in> set src \<and> vs \<noteq> []}"
proof (induction src arbitrary: m)
  case Nil
  then show ?case by simp
next
  case (Cons p src)
  obtain k vs where p: "p = (k, vs)" by (cases p)
  obtain m1 where m1: "addEach add (Some m) k vs = Inr (Some m1)"
    "\<forall>k'. map_index m1 k' = (if k' = f k then map_index m k' @ vs else map_index m k')"
    "set (map fst m1) = set (map fst m) \<union> (if vs = [] then {} else {f k})"
    using addEach_appends [where add = add and f = f and m = m and k = k and vs = vs, OF assms]
    by blast
  obtain m' where m': "addAll add (Some m1) src = Inr (Some m')"
    "\<forall>k. map_index m' k = map_index m1 k @ concat (map snd (filter (\<lambda>p. f (fst p) = k) src))"
    "set (map fst m') = set (map fst m1) \<union> {f k |k vs. (k, vs) \<in> set src \<and> vs \<noteq> []}"
    using Cons.IH [of m1] by blast
  have "addAll add (Some m) (p # src) = Inr (Some m')"
    using m1(1) m'(1) p by simp
  moreover have "\<forall>k'. map_index m' k' = map_index m k' @ concat (map snd (filter (\<lambda>q. f (fst q) = k') (p # src)))"
    using m1(2) m'(2) p by simp
  moreover have "set (map fst m') = set (map fst m) \<union> {f k |k vs. (k, vs) \<in> set (p # src) \<and> vs \<noteq> []}"
    using m1(3) m'(3) p by auto
  ultimately show ?case by blast
qed

lemma addAll_nil_empty: "addAll add dst [] = Inr dst"
  by simp

lemma concat_filter_distinct:
  "distinct ks \<Longrightarrow> concat (map snd (filter (\<lambda>p. fst p = k) (map (\<lambda>k. (k, g k)) ks)))
     = (if k \<in> set ks then g k else [])"
  by (induction ks) auto

lemma map_index_absent: "k \<notin> set (map fst m) \<Longrightarrow> map_index m k = []"
  by (simp add: map_index_def map_get_def map_of_eq_None_iff [THEN iffD2])

lemma range_values: "concat (map snd (filter (\<lambda>p. fst p = k) (map_range m))) = map_index m k"
  unfolding map_range_def
  using concat_filter_distinct [of "remdups (map fst m)" k "map_index m"] map_index_absent [of k m]
  by auto

lemma gomap_range_values:
  "concat (map snd (filter (\<lambda>p. fst p = k) (gomap_range g))) = gomap_index g k"
  by (cases g) (simp_all add: gomap_range_def gomap_index_def range_values)

lemma gomap_len_Some: "gomap_len (Some m) > 0 \<longleftrightarrow> m \<noteq> []"
  by (simp add: gomap_len_def)

text \<open>The URL that \<open>Submit\<close> resolves for a path that parses, with the queries it leaves in the composer.\<close>

lemma Submit_path_parsed:
  assumes "path r \<noteq> []" and "url_Parse (strings_TrimPrefix (path r) ''/'') = Inr u"
    and "queries r = Some q0"
  shows "\<exists>W. Submit_path r =
           (Inr (if Host u \<noteq> [] then Scheme u @ ''://'' @ Host u else GetHost (client r),
                 ''/'' @ Path u), r\<lparr>queries := Some W\<rparr>)
         \<and> (\<forall>k. map_index W k = map_index q0 k @ map_index (URL_Query u) k)"
proof -
  obtain W where W: "addAll Values_Add (Some q0) (map_range (URL_Query u)) = Inr (Some W)"
    "\<forall>k. map_index W k = map_index q0 k
        @ concat (map snd (filter (\<lambda>p. fst p = k) (map_range (URL_Query u))))"
    using addAll_appends [where add = Values_Add and f = "\<lambda>k. k" and m = q0
        and src = "map_range (URL_Query u)", OF appends_Values] by blast
  have "Submit_path r =
           (Inr (if Host u \<noteq> [] then Scheme u @ ''://'' @ Host u else GetHost (client r),
                 ''/'' @ Path u), r\<lparr>queries := Some W\<rparr>)"
    using assms W(1) by (simp add: Submit_path_def Let_def)
  moreover have "\<forall>k. map_index W k = map_index q0 k @ map_index (URL_Query u) k"
    using W(2) by (simp add: range_values)
  ultimately show ?thesis by blast
qed

lemma Submit_path_empty:
  assumes "path r = []"
  shows "Submit_path r = (Inr (GetHost (client r), []), r)"
  using assms by (simp add: Submit_path_def)

lemma Submit_url_defaults:
  assumes "Submit_path r = (Inr (hst, pth), r\<lparr>queries := Some W0\<rparr>)"
  shows "\<exists>W. Submit_url r =
           (Inr (hst @ GetUrlPrefix (client r) @ pth
                  @ (if W = [] then [] else ''?'' @ Values_Encode (Some W))),
            r\<lparr>queries := Some W\<rparr>)
         \<and> (\<forall>k. map_index W k = map_index W0 k
               @ (if skipDefaultQueries r then [] else gomap_index (DefaultQueries (client r)) k))"
proof (cases "skipDefaultQueries r")
  case True
  have "Submit_url r =
           (Inr (hst @ GetUrlPrefix (client r) @ pth
                  @ (if W0 = [] then [] else ''?'' @ Values_Encode (Some W0))),
            r\<lparr>queries := Some W0\<rparr>)"
    using True by (simp add: Submit_url_def assms Let_def gomap_len_Some)
  then show ?thesis using True by auto
next
  case False
  obtain W where W: "addAll Values_Add (Some W0) (gomap_range (DefaultQueries (client r))) = Inr (Some W)"
    "\<forall>k. map_index W k = map_index W0 k
        @ concat (map snd (filter (\<lambda>p. fst p = k) (gomap_range (DefaultQueries (client r)))))"
    using addAll_appends [where add = Values_Add and f = "\<lambda>k. k" and m = W0
        and src = "gomap_range (DefaultQueries (client r))", OF appends_Values] by blast
  have "Submit_url r =
           (Inr (hst @ GetUrlPrefix (client r) @ pth
                  @ (if W = [] then [] else ''?'' @ Values_Encode (Some W))),
            r\<lparr>queries := Some W\<rparr>)"
    using False W(1) by (simp add: Submit_url_def assms Let_def gomap_len_Some)
  moreover have "\<forall>k. map_index W k = map_index W0 k
               @ (if skipDefaultQueries r then [] else gomap_index (DefaultQueries (client r)) k)"
    using False W(2) by (simp add: gomap_range_values)
  ultimately show ?thesis by blast
qed

lemma Submit_url_parsed:
  assumes "path r \<noteq> []" and "url_Parse (strings_TrimPrefix (path r) ''/'') = Inr u"
    and "queries r = Some q0"
  shows "\<exists>W. Submit_url r =
           (Inr ((if Host u \<noteq> [] then Scheme u @ ''://'' @ Host u else GetHost (client r))
                  @ GetUrlPrefix (client r) @ (''/'' @ Path u)
                  @ (if W = [] then [] else ''?'' @ Values_Encode (Some W))),
            r\<lparr>queries := Some W\<rparr>)
         \<and> (\<forall>k. map_index W k = map_index q0 k @ map_index (URL_Query u) k
               @ (if skipDefaultQueries r then [] else gomap_index (DefaultQueries (client r)) k))"
proof -
  obtain W0 where W0: "Submit_path r =
           (Inr (if Host u \<noteq> [] then Scheme u @ ''://'' @ Host u else GetHost (client r),
                 ''/'' @ Path u), r\<lparr>queries := Some W0\<rparr>)"
      "\<forall>k. map_index W0 k = map_index q0 k @ map_index (URL_Query u) k"
    using Submit_path_parsed [OF assms] by blast
  show ?thesis
    using Submit_url_defaults [OF W0(1)] W0(2) by simp
qed

lemma Submit_url_empty_path:
  assumes "path r = []" and "queries r = Some q0"
  shows "\<exists>W. Submit_url r =
           (Inr (GetHost (client r) @ GetUrlPrefix (client r) @ []
                  @ (if W = [] then [] else ''?'' @ Values_Encode (Some W))),
            r\<lparr>queries := Some W\<rparr>)
         \<and> (\<forall>k. map_index W k = map_index q0 k
               @ (if skipDefaultQueries r then [] else gomap_index (DefaultQueries (client r)) k))"
proof -
  have "Submit_path r = (Inr (GetHost (client r), []), r\<lparr>queries := Some q0\<rparr>)"
    using Submit_path_empty [OF assms(1)] assms(2) by (metis httpRequest.surjective httpRequest.update_convs(7))
  from Submit_url_defaults [OF this] show ?thesis by simp
qed

text \<open>\<open>Values.Encode\<close> joins the pairs of the map with \<open>&\<close>.\<close>

lemma Join_snoc:
  "strings_Join (ps @ [x]) sep = (if ps = [] then x else strings_Join ps sep @ sep @ x)"
  by (induction ps sep rule: strings_Join.induct) auto

lemma Join_nonempty:
  "ps \<noteq> [] \<Longrightarrow> list_all (\<lambda>p. p \<noteq> []) ps \<Longrightarrow> strings_Join ps sep \<noteq> []"
  by (induction ps sep rule: strings_Join.induct) auto

lemma Encode_values_join:
  assumes "buf = strings_Join ps ''&''" and "list_all (\<lambda>p. p \<noteq> []) ps"
  shows "Encode_values buf ke vs
     = strings_Join (ps @ map (\<lambda>v. ke @ ''='' @ QueryEscape v) vs) ''&''"
  using assms
proof (induction vs arbitrary: buf ps)
  case Nil
  then show ?case by simp
next
  case (Cons v vs)
  let ?x = "ke @ ''='' @ QueryEscape v"
  have b: "(if length buf > 0 then buf @ ''&'' else buf) @ ?x = strings_Join (ps @ [?x]) ''&''"
    using Cons.prems Join_nonempty [of ps "''&''"] by (cases "ps = []") (auto simp: Join_snoc)
  have "list_all (\<lambda>p. p \<noteq> []) (ps @ [?x])" using Cons.prems by simp
  from Cons.IH [OF b [symmetric, THEN sym] this] show ?case
    by simp
qed

lemma Encode_keys_join:
  assumes "buf = strings_Join ps ''&''" and "list_all (\<lambda>p. p \<noteq> []) ps"
  shows "Encode_keys m buf ks
     = strings_Join (ps @ concat (map (\<lambda>k. map (\<lambda>v. QueryEscape k @ ''='' @ QueryEscape v)
                                             (map_index m k)) ks)) ''&''"
  using assms
proof (induction ks arbitrary: buf ps)
  case Nil
  then show ?case by simp
next
  case (Cons k ks)
  let ?qs = "map (\<lambda>v. QueryEscape k @ ''='' @ QueryEscape v) (map_index m k)"
  have b: "Encode_values buf (QueryEscape k) (map_index m k) = strings_Join (ps @ ?qs) ''&''"
    using Encode_values_join [OF Cons.prems] .
  have "list_all (\<lambda>p. p \<noteq> []) (ps @ ?qs)" using Cons.prems by (auto simp: list_all_iff)
  from Cons.IH [OF b this] show ?case by simp
qed

lemma Values_Encode_join: "Values_Encode (Some m) = strings_Join (queryPairs m) ''&''"
proof (cases "m = []")
  case True
  then show ?thesis by (simp add: Values_Encode_def queryPairs_def)
next
  case False
  then have "remdups (map fst m) \<noteq> []" by simp
  then show ?thesis
    using Encode_keys_join [of "[]" "[]" m "sort (remdups (map fst m))"]
    by (simp add: Values_Encode_def queryPairs_def)
qed

lemma map_index_present: "v \<in> set (map_index m k) \<Longrightarrow> k \<in> set (map fst m)"
  using map_index_absent [of k m] by fastforce

lemma queryPairs_member:
  "v \<in> set (map_index m k) \<Longrightarrow> QueryEscape k @ ''='' @ QueryEscape v \<in> set (queryPairs m)"
  using map_index_present [of v m k] by (auto simp: queryPairs_def)

section \<open>The resolved URL\<close>

subsection \<open>The path of a URL with a host\<close>

lemma Index_Some_drop: "strings_Index s [c] = Some i \<Longrightarrow> \<exists>t. drop i s = c # t"
proof (induction s arbitrary: i)
  case Nil
  then show ?case by simp
next
  case (Cons a s)
  show ?case
  proof (cases "a = c")
    case True
    then show ?thesis using Cons.prems by (simp add: strings_HasPrefix_def)
  next
    case False
    then obtain j where j: "strings_Index s [c] = Some j" "i = Suc j"
      using Cons.prems by (auto simp: strings_HasPrefix_def split: option.splits)
    then show ?thesis using Cons.IH [OF j(1)] by simp
  qed
qed

lemma setPath_decode:
  "setPath v p = Inr u \<Longrightarrow> Host u = Host v \<and> Path u = unescape_decode p encodePath"
  by (auto simp: setPath_def unescape_def split: sum.splits option.splits)

lemma decode_rest:
  "slashed (unescape_decode (case strings_Index a ''/'' of None \<Rightarrow> [] | Some i \<Rightarrow> drop i a)
      encodePath)"
proof (cases "strings_Index a ''/''")
  case None
  then show ?thesis by (simp add: slashed_def)
next
  case (Some i)
  then obtain t where "drop i a = CHR ''/'' # t" using Index_Some_drop by blast
  then show ?thesis using Some by (simp add: slashed_def strings_HasPrefix_def)
qed

lemma parse_Host_Path:
  assumes "parse x = Inr u" and "Host u \<noteq> []"
  shows "slashed (Path u)"
proof -
  have nostar: "\<not> stringContainsCTLByte x" "x \<noteq> ''*''"
    using assms by (auto simp: parse_def emptyURL_def split: if_splits)
  obtain s r where g: "getScheme x = Inr (s, r)"
    using assms nostar by (cases "getScheme x") (auto simp: parse_def)
  show ?thesis
    using assms nostar g
    by (auto simp: parse_def Let_def emptyURL_def decode_rest
          split: if_splits sum.splits prod.splits dest!: setPath_decode)
qed

lemma url_Parse_Host_Path:
  assumes "url_Parse x = Inr u" and "Host u \<noteq> []"
  shows "slashed (Path u)"
proof -
  have "\<exists>v. parse (Cut_before x ''#'') = Inr v \<and> Host v = Host u \<and> Path v = Path u"
    using assms(1)
    by (auto simp: url_Parse_def Let_def setFragment_def split: sum.splits if_splits)
  then show ?thesis using parse_Host_Path assms(2) by metis
qed

lemma leadingSlashes_Cons: "leadingSlashes (CHR ''/'' # p) = Suc (leadingSlashes p)"
  by (simp add: leadingSlashes_def)

lemma leadingSlashes_zero: "leadingSlashes p = 0 \<longleftrightarrow> \<not> strings_HasPrefix p ''/''"
  by (cases p) (simp_all add: leadingSlashes_def strings_HasPrefix_def)

lemma leadingSlashes_two: "p \<noteq> [] \<Longrightarrow> slashed p \<Longrightarrow> 2 \<le> leadingSlashes (''/'' @ p)"
  by (cases p) (simp_all add: leadingSlashes_def slashed_def strings_HasPrefix_def)

subsection \<open>The path component\<close>

text \<open>
  Claim C3, as stated, fails at the case it names: the path portion of an absolute URL
  begins with \<open>/\<close>, and \<open>Submit\<close> puts one more \<open>/\<close> before it, so that the component
  resolved for \<open>https://other.example/resource\<close> is \<open>//resource\<close>, with two leading
  slashes. The same holds of a stored path that begins with two slashes, of which
  \<open>strings.TrimPrefix\<close> removes one.
\<close>

theorem Submit_resolved_path_slashes_counterexample:
  "fst (Submit_path (apiGet ''https://other.example/resource''))
     = Inr (''https://other.example'', ''//resource'')
   \<and> leadingSlashes ''//resource'' = 2
   \<and> fst (Submit_url (apiGet ''https://other.example/resource''))
       = Inr ''https://other.example/v1//resource?a=2''
   \<and> fst (Submit_path (apiGet ''//a/b'')) = Inr (''https://api.example.com'', ''//a/b'')"
  by code_simp

text \<open>
  Claim C3, amended. Let the queries of the composer be a map (not nil). For a stored path
  that is not empty and that \<open>url.Parse\<close> accepts after one leading slash is trimmed, the
  path component that \<open>Submit\<close> resolves and places into the final URL, between the
  prefix and the query string, is one \<open>/\<close> followed by the path portion of the parsed
  reference, which is not trimmed: the component has one leading slash more than the
  path portion. So it has exactly one leading slash exactly when the path portion does
  not begin with \<open>/\<close> (the bare \<open>/\<close> when the portion is empty); for a reference with a
  host (an absolute URL) the path portion is empty or begins with \<open>/\<close>, and the component
  is the bare \<open>/\<close> or has at least two leading slashes. For the empty stored path the
  component is empty.
\<close>

theorem Submit_resolved_path:
  assumes "queries r = Some q0"
  shows
    "(path r \<noteq> [] \<and> url_Parse (strings_TrimPrefix (path r) ''/'') = Inr u \<longrightarrow>
        (\<exists>hst qp.
           fst (Submit_path r) = Inr (hst, ''/'' @ Path u)
           \<and> fst (Submit_url r) = Inr (hst @ GetUrlPrefix (client r) @ (''/'' @ Path u) @ qp)
           \<and> (qp = [] \<or> hd qp = CHR ''?''))
        \<and> leadingSlashes (''/'' @ Path u) = Suc (leadingSlashes (Path u))
        \<and> (leadingSlashes (''/'' @ Path u) = 1 \<longleftrightarrow> \<not> strings_HasPrefix (Path u) ''/'')
        \<and> (Host u \<noteq> [] \<longrightarrow> Path u = [] \<or> 2 \<le> leadingSlashes (''/'' @ Path u)))
     \<and> (path r = [] \<longrightarrow>
        (\<exists>qp.
           fst (Submit_path r) = Inr (GetHost (client r), [])
           \<and> fst (Submit_url r) = Inr (GetHost (client r) @ GetUrlPrefix (client r) @ [] @ qp)
           \<and> (qp = [] \<or> hd qp = CHR ''?'')))"
proof (intro conjI impI)
  assume a: "path r \<noteq> [] \<and> url_Parse (strings_TrimPrefix (path r) ''/'') = Inr u"
  obtain W0 where W0: "Submit_path r =
           (Inr (if Host u \<noteq> [] then Scheme u @ ''://'' @ Host u else GetHost (client r),
                 ''/'' @ Path u), r\<lparr>queries := Some W0\<rparr>)"
    using Submit_path_parsed [OF conjunct1 [OF a] conjunct2 [OF a] assms] by blast
  obtain W where W: "Submit_url r =
           (Inr ((if Host u \<noteq> [] then Scheme u @ ''://'' @ Host u else GetHost (client r))
                  @ GetUrlPrefix (client r) @ (''/'' @ Path u)
                  @ (if W = [] then [] else ''?'' @ Values_Encode (Some W))),
            r\<lparr>queries := Some W\<rparr>)"
    using Submit_url_parsed [OF conjunct1 [OF a] conjunct2 [OF a] assms] by blast
  let ?hst = "if Host u \<noteq> [] then Scheme u @ ''://'' @ Host u else GetHost (client r)"
  let ?qp = "if W = [] then [] else ''?'' @ Values_Encode (Some W)"
  have "fst (Submit_path r) = Inr (?hst, ''/'' @ Path u)" using W0 by simp
  moreover have "fst (Submit_url r) = Inr (?hst @ GetUrlPrefix (client r) @ (''/'' @ Path u) @ ?qp)"
    using W by simp
  moreover have "?qp = [] \<or> hd ?qp = CHR ''?''" by simp
  ultimately show "\<exists>hst qp.
           fst (Submit_path r) = Inr (hst, ''/'' @ Path u)
           \<and> fst (Submit_url r) = Inr (hst @ GetUrlPrefix (client r) @ (''/'' @ Path u) @ qp)
           \<and> (qp = [] \<or> hd qp = CHR ''?'')"
    by blast
  show s: "leadingSlashes (''/'' @ Path u) = Suc (leadingSlashes (Path u))"
    using leadingSlashes_Cons by simp
  show "leadingSlashes (''/'' @ Path u) = 1 \<longleftrightarrow> \<not> strings_HasPrefix (Path u) ''/''"
    unfolding s using leadingSlashes_zero by simp
  {
    assume h: "Host u \<noteq> []"
    have "slashed (Path u)" using url_Parse_Host_Path [OF conjunct2 [OF a] h] .
    then show "Path u = [] \<or> 2 \<le> leadingSlashes (''/'' @ Path u)"
      using leadingSlashes_two by blast
  }
next
  assume a: "path r = []"
  obtain W where W: "Submit_url r =
           (Inr (GetHost (client r) @ GetUrlPrefix (client r) @ []
                  @ (if W = [] then [] else ''?'' @ Values_Encode (Some W))),
            r\<lparr>queries := Some W\<rparr>)"
    using Submit_url_empty_path [OF a assms] by blast
  let ?qp = "if W = [] then [] else ''?'' @ Values_Encode (Some W)"
  have "fst (Submit_path r) = Inr (GetHost (client r), [])"
    using Submit_path_empty [OF a] by simp
  moreover have "fst (Submit_url r) = Inr (GetHost (client r) @ GetUrlPrefix (client r) @ [] @ ?qp)"
    using W by simp
  moreover have "?qp = [] \<or> hd ?qp = CHR ''?''" by simp
  ultimately show "\<exists>qp.
           fst (Submit_path r) = Inr (GetHost (client r), [])
           \<and> fst (Submit_url r) = Inr (GetHost (client r) @ GetUrlPrefix (client r) @ [] @ qp)
           \<and> (qp = [] \<or> hd qp = CHR ''?'')"
    by blast
qed

theorem Submit_resolved_path_witness:
  "(\<exists>hst qp.
      fst (Submit_path (apiGet ''/users?active=true'')) = Inr (hst, ''/users'')
      \<and> fst (Submit_url (apiGet ''/users?active=true'')) = Inr (hst @ ''/v1'' @ ''/users'' @ qp)
      \<and> (qp = [] \<or> hd qp = CHR ''?''))
   \<and> leadingSlashes ''/users'' = 1
   \<and> (\<exists>hst qp.
      fst (Submit_path (apiGet ''https://other.example/resource'')) = Inr (hst, ''//resource'')
      \<and> fst (Submit_url (apiGet ''https://other.example/resource''))
            = Inr (hst @ ''/v1'' @ ''//resource'' @ qp)
      \<and> (qp = [] \<or> hd qp = CHR ''?''))
   \<and> 2 \<le> leadingSlashes ''//resource''
   \<and> (\<exists>qp.
      fst (Submit_path (apiGet [])) = Inr (''https://api.example.com'', [])
      \<and> fst (Submit_url (apiGet [])) = Inr (''https://api.example.com'' @ ''/v1'' @ [] @ qp)
      \<and> (qp = [] \<or> hd qp = CHR ''?''))"
proof -
  let ?u1 = "emptyURL\<lparr>Path := ''users'', RawQuery := ''active=true''\<rparr>"
  let ?u2 = "emptyURL\<lparr>Scheme := ''https'', Host := ''other.example'', Path := ''/resource''\<rparr>"
  have q: "queries (apiGet ''/users?active=true'') = Some []"
    "queries (apiGet ''https://other.example/resource'') = Some []"
    "queries (apiGet []) = Some []"
    by (simp_all add: apiGet_def NewHttpRequest_def)
  have p1: "path (apiGet ''/users?active=true'') \<noteq> []
      \<and> url_Parse (strings_TrimPrefix (path (apiGet ''/users?active=true'')) ''/'') = Inr ?u1"
    by code_simp
  have p2: "path (apiGet ''https://other.example/resource'') \<noteq> []
      \<and> url_Parse (strings_TrimPrefix (path (apiGet ''https://other.example/resource'')) ''/'')
          = Inr ?u2"
    by code_simp
  have p3: "path (apiGet []) = []"
    by (simp add: apiGet_def)
  have g: "GetUrlPrefix (client (apiGet ''/users?active=true'')) = ''/v1''"
    "GetUrlPrefix (client (apiGet ''https://other.example/resource'')) = ''/v1''"
    "GetUrlPrefix (client (apiGet [])) = ''/v1''"
    "GetHost (client (apiGet [])) = ''https://api.example.com''"
    by code_simp+
  have v: "Path ?u1 = ''users''" "Path ?u2 = ''/resource''" "Host ?u2 \<noteq> []"
    "\<not> strings_HasPrefix ''users'' ''/''"
    by (simp_all add: strings_HasPrefix_def)
  note A = Submit_resolved_path [OF q(1), of ?u1, THEN conjunct1, THEN mp, OF p1]
  note B = Submit_resolved_path [OF q(2), of ?u2, THEN conjunct1, THEN mp, OF p2]
  note C = Submit_resolved_path [OF q(3), THEN conjunct2, THEN mp, OF p3]
  have 1: "\<exists>hst qp.
      fst (Submit_path (apiGet ''/users?active=true'')) = Inr (hst, ''/users'')
      \<and> fst (Submit_url (apiGet ''/users?active=true'')) = Inr (hst @ ''/v1'' @ ''/users'' @ qp)
      \<and> (qp = [] \<or> hd qp = CHR ''?'')"
    using A [THEN conjunct1] unfolding g v by simp
  have 2: "leadingSlashes ''/users'' = 1"
    using A [THEN conjunct2, THEN conjunct2, THEN conjunct1] v(4) unfolding v(1) by simp
  have 3: "\<exists>hst qp.
      fst (Submit_path (apiGet ''https://other.example/resource'')) = Inr (hst, ''//resource'')
      \<and> fst (Submit_url (apiGet ''https://other.example/resource''))
            = Inr (hst @ ''/v1'' @ ''//resource'' @ qp)
      \<and> (qp = [] \<or> hd qp = CHR ''?'')"
    using B [THEN conjunct1] unfolding g v by simp
  have 4: "2 \<le> leadingSlashes ''//resource''"
    using B [THEN conjunct2, THEN conjunct2, THEN conjunct2, THEN mp, OF v(3)] unfolding v by simp
  have 5: "\<exists>qp.
      fst (Submit_path (apiGet [])) = Inr (''https://api.example.com'', [])
      \<and> fst (Submit_url (apiGet [])) = Inr (''https://api.example.com'' @ ''/v1'' @ [] @ qp)
      \<and> (qp = [] \<or> hd qp = CHR ''?'')"
    using C unfolding g by simp
  from 1 2 3 4 5 show ?thesis by blast
qed

text \<open>
  Claim C1, as stated, fails: with the prefix \<open>v1\<close> in the profile and the path
  \<open>https://other.example/resource?x=1\<close>, the final URL has the host of the path and
  still the prefix \<open>/v1\<close> of the profile.
\<close>

theorem Submit_absolute_url_prefix_counterexample:
  "GetUrlPrefix (client (apiGet ''https://other.example/resource?x=1'')) = ''/v1''
   \<and> fst (Submit_url (apiGet ''https://other.example/resource?x=1''))
       = Inr ''https://other.example/v1//resource?a=2&x=1''
   \<and> fst (Submit_url (apiGet ''https://other.example/resource?x=1''))
       \<noteq> Inr ''https://other.example/resource?a=2&x=1''"
  by code_simp

text \<open>
  Claim C1, amended. For a stored path that \<open>url.Parse\<close> accepts as a URL with a host (an
  absolute URL with scheme and authority), and queries of the composer that are a map,
  the final URL starts with the scheme and host of that URL in place of the host of the
  profile; the prefix of the profile is still applied, between that host and the path;
  the query string encodes, under every key, the values that the composer had, then the
  values of the URL's own query, then (unless the defaults are skipped) the default
  values of the profile.
\<close>

theorem Submit_absolute_url:
  assumes "path r \<noteq> []" and "url_Parse (strings_TrimPrefix (path r) ''/'') = Inr u"
    and "Host u \<noteq> []" and "queries r = Some q0"
  shows "\<exists>W. fst (Submit_url r) =
            Inr (Scheme u @ ''://'' @ Host u @ GetUrlPrefix (client r) @ ''/'' @ Path u
                   @ (if W = [] then [] else ''?'' @ Values_Encode (Some W)))
          \<and> queries (snd (Submit_url r)) = Some W
          \<and> (\<forall>k. map_index W k = map_index q0 k @ map_index (URL_Query u) k
                @ (if skipDefaultQueries r then []
                   else gomap_index (DefaultQueries (client r)) k))"
proof -
  obtain W where W: "Submit_url r =
           (Inr ((if Host u \<noteq> [] then Scheme u @ ''://'' @ Host u else GetHost (client r))
                  @ GetUrlPrefix (client r) @ (''/'' @ Path u)
                  @ (if W = [] then [] else ''?'' @ Values_Encode (Some W))),
            r\<lparr>queries := Some W\<rparr>)"
    "\<forall>k. map_index W k = map_index q0 k @ map_index (URL_Query u) k
               @ (if skipDefaultQueries r then [] else gomap_index (DefaultQueries (client r)) k)"
    using Submit_url_parsed [OF assms(1,2,4)] by blast
  have "fst (Submit_url r) =
            Inr (Scheme u @ ''://'' @ Host u @ GetUrlPrefix (client r) @ ''/'' @ Path u
                   @ (if W = [] then [] else ''?'' @ Values_Encode (Some W)))"
    using W(1) assms(3) by simp
  moreover have "queries (snd (Submit_url r)) = Some W"
    using W(1) by simp
  ultimately show ?thesis using W(2) by blast
qed

theorem Submit_absolute_url_witness:
  "\<exists>W. fst (Submit_url (apiGet ''https://other.example/resource?x=1'')) =
            Inr (''https://other.example/v1//resource''
                   @ (if W = [] then [] else ''?'' @ Values_Encode (Some W)))
          \<and> queries (snd (Submit_url (apiGet ''https://other.example/resource?x=1''))) = Some W
          \<and> map_index W ''x'' = [''1''] \<and> map_index W ''a'' = [''2'']"
proof -
  let ?r = "apiGet ''https://other.example/resource?x=1''"
  let ?u = "emptyURL\<lparr>Scheme := ''https'', Host := ''other.example'', Path := ''/resource'',
              RawQuery := ''x=1''\<rparr>"
  have h: "path ?r \<noteq> []" "url_Parse (strings_TrimPrefix (path ?r) ''/'') = Inr ?u"
    "Host ?u \<noteq> []" "queries ?r = Some []"
    by code_simp+
  have g: "GetUrlPrefix (client ?r) = ''/v1''" "skipDefaultQueries ?r = False"
    "map_index [] ''x'' @ map_index (URL_Query ?u) ''x''
        @ gomap_index (DefaultQueries (client ?r)) ''x'' = [''1'']"
    "map_index [] ''a'' @ map_index (URL_Query ?u) ''a''
        @ gomap_index (DefaultQueries (client ?r)) ''a'' = [''2'']"
    by code_simp+
  obtain W where W: "fst (Submit_url ?r) =
            Inr (Scheme ?u @ ''://'' @ Host ?u @ GetUrlPrefix (client ?r) @ ''/'' @ Path ?u
                   @ (if W = [] then [] else ''?'' @ Values_Encode (Some W)))"
      "queries (snd (Submit_url ?r)) = Some W"
      "\<forall>k. map_index W k = map_index [] k @ map_index (URL_Query ?u) k
                @ (if skipDefaultQueries ?r then []
                   else gomap_index (DefaultQueries (client ?r)) k)"
    using Submit_absolute_url [OF h] by blast
  have "map_index W ''x'' = [''1'']" "map_index W ''a'' = [''2'']"
    using W(3) g(2,3,4) by simp_all
  moreover have "fst (Submit_url ?r) =
            Inr (''https://other.example/v1//resource''
                   @ (if W = [] then [] else ''?'' @ Values_Encode (Some W)))"
    using W(1) unfolding g(1) by (simp add: emptyURL_def)
  ultimately show ?thesis using W(2) by blast
qed

text \<open>
  Claim C4. Without the skip-default-queries flag, for a stored path that parses and a
  composer whose queries are a map, the working query set holds under every key the
  values that the composer had, then the values of the query of the path, then the
  default values of the profile: nothing is replaced, and the values of the path come
  before the defaults. The query string of the final URL is the \<open>&\<close>-joined list of
  the pairs \<open>key=value\<close> of that set, keys sorted, the values of a key in that order; so
  it contains the pair of every value of either side.
\<close>

theorem Submit_queries_additive:
  assumes "\<not> skipDefaultQueries r" and "path r \<noteq> []"
    and "url_Parse (strings_TrimPrefix (path r) ''/'') = Inr u" and "queries r = Some q0"
  shows "\<exists>W. queries (snd (Submit_url r)) = Some W
      \<and> (\<forall>k. map_index W k = map_index q0 k @ map_index (URL_Query u) k
                @ gomap_index (DefaultQueries (client r)) k)
      \<and> fst (Submit_url r) =
            Inr ((if Host u \<noteq> [] then Scheme u @ ''://'' @ Host u else GetHost (client r))
                   @ GetUrlPrefix (client r) @ ''/'' @ Path u
                   @ (if W = [] then [] else ''?'' @ strings_Join (queryPairs W) ''&''))
      \<and> (\<forall>k v. v \<in> set (map_index (URL_Query u) k)
                  \<or> v \<in> set (gomap_index (DefaultQueries (client r)) k)
             \<longrightarrow> QueryEscape k @ ''='' @ QueryEscape v \<in> set (queryPairs W))"
proof -
  obtain W where W: "Submit_url r =
           (Inr ((if Host u \<noteq> [] then Scheme u @ ''://'' @ Host u else GetHost (client r))
                  @ GetUrlPrefix (client r) @ (''/'' @ Path u)
                  @ (if W = [] then [] else ''?'' @ Values_Encode (Some W))),
            r\<lparr>queries := Some W\<rparr>)"
    "\<forall>k. map_index W k = map_index q0 k @ map_index (URL_Query u) k
               @ (if skipDefaultQueries r then [] else gomap_index (DefaultQueries (client r)) k)"
    using Submit_url_parsed [OF assms(2,3,4)] by blast
  have 1: "queries (snd (Submit_url r)) = Some W"
    using W(1) by simp
  have 2: "\<forall>k. map_index W k = map_index q0 k @ map_index (URL_Query u) k
                @ gomap_index (DefaultQueries (client r)) k"
    using W(2) assms(1) by simp
  have 3: "fst (Submit_url r) =
            Inr ((if Host u \<noteq> [] then Scheme u @ ''://'' @ Host u else GetHost (client r))
                   @ GetUrlPrefix (client r) @ ''/'' @ Path u
                   @ (if W = [] then [] else ''?'' @ strings_Join (queryPairs W) ''&''))"
    using W(1) by (simp add: Values_Encode_join)
  have 4: "\<forall>k v. v \<in> set (map_index (URL_Query u) k)
                  \<or> v \<in> set (gomap_index (DefaultQueries (client r)) k)
             \<longrightarrow> QueryEscape k @ ''='' @ QueryEscape v \<in> set (queryPairs W)"
  proof (intro allI impI)
    fix k v
    assume "v \<in> set (map_index (URL_Query u) k)
        \<or> v \<in> set (gomap_index (DefaultQueries (client r)) k)"
    then have "v \<in> set (map_index W k)" using 2 by auto
    then show "QueryEscape k @ ''='' @ QueryEscape v \<in> set (queryPairs W)"
      by (rule queryPairs_member)
  qed
  from 1 2 3 4 show ?thesis by blast
qed

theorem Submit_queries_additive_witness:
  "(\<exists>W. queries (snd (Submit_url (apiGet ''/users?a=1''))) = Some W
      \<and> map_index W ''a'' = [''1'', ''2'']
      \<and> ''a=1'' \<in> set (queryPairs W) \<and> ''a=2'' \<in> set (queryPairs W))
   \<and> fst (Submit_url (apiGet ''/users?a=1'')) = Inr ''https://api.example.com/v1/users?a=1&a=2''"
proof -
  let ?r = "apiGet ''/users?a=1''"
  let ?u = "emptyURL\<lparr>Path := ''users'', RawQuery := ''a=1''\<rparr>"
  have h: "\<not> skipDefaultQueries ?r" "path ?r \<noteq> []"
    "url_Parse (strings_TrimPrefix (path ?r) ''/'') = Inr ?u" "queries ?r = Some []"
    by code_simp+
  have g: "map_index [] ''a'' @ map_index (URL_Query ?u) ''a''
        @ gomap_index (DefaultQueries (client ?r)) ''a'' = [''1'', ''2'']"
    "''1'' \<in> set (map_index (URL_Query ?u) ''a'')"
    "''2'' \<in> set (gomap_index (DefaultQueries (client ?r)) ''a'')"
    "QueryEscape ''a'' @ ''='' @ QueryEscape ''1'' = ''a=1''"
    "QueryEscape ''a'' @ ''='' @ QueryEscape ''2'' = ''a=2''"
    by code_simp+
  obtain W where W: "queries (snd (Submit_url ?r)) = Some W"
    "\<forall>k. map_index W k = map_index [] k @ map_index (URL_Query ?u) k
                @ gomap_index (DefaultQueries (client ?r)) k"
    "\<forall>k v. v \<in> set (map_index (URL_Query ?u) k)
                  \<or> v \<in> set (gomap_index (DefaultQueries (client ?r)) k)
             \<longrightarrow> QueryEscape k @ ''='' @ QueryEscape v \<in> set (queryPairs W)"
    using Submit_queries_additive [OF h] by blast
  have "map_index W ''a'' = [''1'', ''2'']"
    using W(2) g(1) by simp
  moreover have "''a=1'' \<in> set (queryPairs W)"
    using W(3) g(2) g(4) by metis
  moreover have "''a=2'' \<in> set (queryPairs W)"
    using W(3) g(3) g(5) by metis
  moreover have "fst (Submit_url ?r) = Inr ''https://api.example.com/v1/users?a=1&a=2''"
    by code_simp
  ultimately show ?thesis using W(1) by blast
qed

section \<open>Headers\<close>

text \<open>\<open>CanonicalMIMEHeaderKey\<close> changes nothing in a canonical key.\<close>

lemma toUpper_of_lower:
  assumes "isLowerASCII c"
  shows "isUpperASCII (toUpperASCII c) \<and> \<not> isLowerASCII (toUpperASCII c)"
proof -
  have n: "97 \<le> (of_char c :: nat)" "(of_char c :: nat) \<le> 122"
    using assms by (simp_all add: isLowerASCII_def less_eq_char_def)
  then have m: "(of_char c - 32 :: nat) mod 256 = of_char c - 32"
    by simp
  have a: "65 \<le> (of_char c - 32 :: nat) \<and> (of_char c - 32 :: nat) \<le> 90
      \<and> \<not> 97 \<le> (of_char c - 32 :: nat)"
    using n by arith
  show ?thesis
    using a assms by (simp add: isLowerASCII_def isUpperASCII_def toUpperASCII_def less_eq_char_def m)
qed

lemma toLower_of_upper:
  "isUpperASCII c \<Longrightarrow> isLowerASCII (toLowerASCII c) \<and> \<not> isUpperASCII (toLowerASCII c)"
  by (simp add: isLowerASCII_def isUpperASCII_def toLowerASCII_def less_eq_char_def)

lemma letter_valid: "isLowerASCII c \<or> isUpperASCII c \<Longrightarrow> validHeaderFieldByte c"
  by (simp add: validHeaderFieldByte_def isLetter_def)

lemma canonical_twice:
  "canonicalMIMEHeaderKey b (canonicalMIMEHeaderKey b s) = canonicalMIMEHeaderKey b s"
proof (induction s arbitrary: b)
  case Nil
  then show ?case by simp
next
  case (Cons c s)
  show ?case
    using Cons.IH toUpper_of_lower [of c] toLower_of_upper [of c]
    by (simp add: Let_def)
qed

lemma canonical_valid:
  "list_all validHeaderFieldByte s \<Longrightarrow> list_all validHeaderFieldByte (canonicalMIMEHeaderKey b s)"
proof (induction s arbitrary: b)
  case Nil
  then show ?case by simp
next
  case (Cons c s)
  then show ?case
    using toUpper_of_lower [of c] toLower_of_upper [of c]
      letter_valid [of "toUpperASCII c"] letter_valid [of "toLowerASCII c"]
    by (simp add: Let_def)
qed

lemma Canonical_idem:
  "CanonicalMIMEHeaderKey (CanonicalMIMEHeaderKey s) = CanonicalMIMEHeaderKey s"
  by (simp add: CanonicalMIMEHeaderKey_def canonical_valid canonical_twice)

lemma Canonical_User_Agent: "CanonicalMIMEHeaderKey ''User-Agent'' = ''User-Agent''"
  by code_simp

text \<open>The headers that \<open>Submit\<close> merges and puts on the outgoing request.\<close>

lemma Submit_userAgent_headers:
  assumes "req_headers r = Some h0"
  shows "\<exists>hUA. Submit_userAgent r = Inr (r\<lparr>req_headers := Some hUA\<rparr>)
     \<and> (\<forall>k. map_index hUA k
            = map_index h0 k @ (if k = ''User-Agent'' then userAgentValues r else []))"
proof -
  have add: "\<And>ua. AddHeader r ''User-Agent'' ua
      = Inr (r\<lparr>req_headers := Some (map_set h0 ''User-Agent'' (map_index h0 ''User-Agent'' @ [ua]))\<rparr>)"
    using assms by (simp add: AddHeader_def Header_Add_def Canonical_User_Agent)
  have same: "r = r\<lparr>req_headers := Some h0\<rparr>"
    using assms by (metis httpRequest.surjective httpRequest.update_convs(6))
  show ?thesis
  proof (cases "req_userAgent r")
    case (Some ua)
    then show ?thesis
      using add [of ua] by (auto simp: Submit_userAgent_def userAgentValues_def map_index_map_set)
  next
    case None
    show ?thesis
    proof (cases "GetUserAgent (client r) = []")
      case True
      have "Submit_userAgent r = Inr (r\<lparr>req_headers := Some h0\<rparr>)"
        using None True same by (simp add: Submit_userAgent_def)
      then show ?thesis using None True by (auto simp: userAgentValues_def)
    next
      case False
      then show ?thesis
        using None add [of "GetUserAgent (client r)"]
        by (auto simp: Submit_userAgent_def userAgentValues_def map_index_map_set)
    qed
  qed
qed

lemma valuesUnder_contains:
  assumes "k \<in> set (map fst m)" and "CanonicalMIMEHeaderKey k = K"
  shows "set (map_index m k) \<subseteq> set (valuesUnder (Some m) K)"
proof
  fix x assume x: "x \<in> set (map_index m k)"
  obtain b where b: "(k, b) \<in> set m" using assms(1) by auto
  have "CanonicalMIMEHeaderKey (fst (k, b)) = K \<and> x \<in> set (map_index m (fst (k, b)))"
    using assms(2) x by simp
  then have "\<exists>p\<in>set m. CanonicalMIMEHeaderKey (fst p) = K \<and> x \<in> set (map_index m (fst p))"
    using b by blast
  then show "x \<in> set (valuesUnder (Some m) K)"
    by (auto simp: valuesUnder_def gomap_range_def map_range_def)
qed

lemma valuesUnder_default:
  assumes "(k, vs) \<in> set (gomap_range d)" and "v \<in> set vs"
  shows "v \<in> set (valuesUnder d (CanonicalMIMEHeaderKey k))"
  using assms by (force simp: valuesUnder_def)


lemma Submit_headers_merged:
  assumes "Submit_url r = (Inr url, r1)"
    and "http_NewRequest (req_method r) url (req_body r) = Inr req0" and "req_headers r = Some h0"
  shows "\<exists>W out. Submit_request r =
        (Inr ((if ctx r \<noteq> None then req0\<lparr>Ctx := ctx r\<rparr> else req0)\<lparr>ReqHeader := Some out\<rparr>),
         r1\<lparr>req_headers := Some W\<rparr>)
     \<and> (\<forall>k. map_index W k = map_index h0 k
            @ (if k = ''User-Agent'' then userAgentValues r else [])
            @ (if skipDefaultHeaders r then [] else valuesUnder (DefaultHeaders (client r)) k))
     \<and> (\<forall>K. map_index out K = valuesUnder (Some W) K)"
proof -
  obtain qs where r1: "r1 = r\<lparr>queries := qs\<rparr>"
    using Submit_url_frame [OF assms(1)] by blast
  have f: "req_method r1 = req_method r" "req_body r1 = req_body r" "ctx r1 = ctx r"
    "req_headers r1 = Some h0" "skipDefaultHeaders r1 = skipDefaultHeaders r"
    "client r1 = client r" "userAgentValues r1 = userAgentValues r"
    using r1 assms(3) by (simp_all add: userAgentValues_def cong: option.case_cong)
  obtain hUA where hUA: "Submit_userAgent r1 = Inr (r1\<lparr>req_headers := Some hUA\<rparr>)"
    "\<forall>k. map_index hUA k
            = map_index h0 k @ (if k = ''User-Agent'' then userAgentValues r1 else [])"
    using Submit_userAgent_headers [OF f(4)] by blast
  let ?r2 = "r1\<lparr>req_headers := Some hUA\<rparr>"
  let ?d = "gomap_range (DefaultHeaders (client r))"
  obtain W where W: "(if \<not> skipDefaultHeaders r then addAll Header_Add (Some hUA) ?d
                       else Inr (Some hUA)) = Inr (Some W)"
    "\<forall>k. map_index W k = map_index hUA k
        @ (if skipDefaultHeaders r then [] else valuesUnder (DefaultHeaders (client r)) k)"
  proof (cases "skipDefaultHeaders r")
    case True
    then show ?thesis using that [of hUA] by simp
  next
    case False
    obtain W' where "addAll Header_Add (Some hUA) ?d = Inr (Some W')"
      "\<forall>k. map_index W' k = map_index hUA k
          @ concat (map snd (filter (\<lambda>p. CanonicalMIMEHeaderKey (fst p) = k) ?d))"
      using addAll_appends [where add = Header_Add and f = CanonicalMIMEHeaderKey and m = hUA
          and src = ?d, OF appends_Header] by blast
    then show ?thesis using that [of W'] False by (simp add: valuesUnder_def)
  qed
  obtain out where out: "addAll Header_Add (Some []) (gomap_range (Some W)) = Inr (Some out)"
    "\<forall>K. map_index out K = map_index [] K
        @ concat (map snd (filter (\<lambda>p. CanonicalMIMEHeaderKey (fst p) = K) (gomap_range (Some W))))"
    using addAll_appends [where add = Header_Add and f = CanonicalMIMEHeaderKey and m = "[]"
        and src = "gomap_range (Some W)", OF appends_Header] by blast
  have n: "ReqHeader req0 = Some []"
    using assms(2) by (auto simp: http_NewRequest_def Let_def split: if_splits sum.splits)
  have nr: "http_NewRequest (req_method r1) url (req_body r1) = Inr req0"
    using assms(2) f by simp
  have m: "(if \<not> skipDefaultHeaders ?r2
            then addAll Header_Add (req_headers ?r2) (gomap_range (DefaultHeaders (client ?r2)))
            else Inr (req_headers ?r2)) = Inr (Some W)"
    using W(1) f by (cases "skipDefaultHeaders r") simp_all
  have o: "addAll Header_Add
             (ReqHeader (if ctx r1 \<noteq> None then req0\<lparr>Ctx := ctx r1\<rparr> else req0))
             (gomap_range (Some W)) = Inr (Some out)"
    using out(1) n by simp
  have "Submit_request r =
        (Inr ((if ctx r1 \<noteq> None then req0\<lparr>Ctx := ctx r1\<rparr> else req0)\<lparr>ReqHeader := Some out\<rparr>),
         ?r2\<lparr>req_headers := Some W\<rparr>)"
    unfolding Submit_request_def assms(1) prod.case sum.case nr Let_def hUA(1) m o ..
  then have "Submit_request r =
        (Inr ((if ctx r \<noteq> None then req0\<lparr>Ctx := ctx r\<rparr> else req0)\<lparr>ReqHeader := Some out\<rparr>),
         r1\<lparr>req_headers := Some W\<rparr>)"
    using f(3) by simp
  moreover have "\<forall>k. map_index W k = map_index h0 k
            @ (if k = ''User-Agent'' then userAgentValues r else [])
            @ (if skipDefaultHeaders r then [] else valuesUnder (DefaultHeaders (client r)) k)"
    using W(2) hUA(2) f(7) by simp
  moreover have "\<forall>K. map_index out K = valuesUnder (Some W) K"
    using out(2) by (simp add: valuesUnder_def map_index_def map_get_def)
  ultimately show ?thesis by blast
qed

lemma valuesUnder_member:
  "v \<in> set (valuesUnder (Some m) K)
     \<longleftrightarrow> (\<exists>k. CanonicalMIMEHeaderKey k = K \<and> v \<in> set (map_index m k))"
proof
  assume "v \<in> set (valuesUnder (Some m) K)"
  then show "\<exists>k. CanonicalMIMEHeaderKey k = K \<and> v \<in> set (map_index m k)"
    by (auto simp: valuesUnder_def gomap_range_def map_range_def)
next
  assume "\<exists>k. CanonicalMIMEHeaderKey k = K \<and> v \<in> set (map_index m k)"
  then obtain k where k: "CanonicalMIMEHeaderKey k = K" "v \<in> set (map_index m k)" by blast
  have "k \<in> set (map fst m)" using k(2) by (rule map_index_present)
  then show "v \<in> set (valuesUnder (Some m) K)"
    using valuesUnder_contains [OF _ k(1)] k(2) by blast
qed

text \<open>With the default headers skipped, no step of \<open>Submit\<close> reads the default headers of the profile.\<close>

lemma Submit_path_other_defaults:
  "Submit_path (r\<lparr>client := (client r)\<lparr>defaultHeaders := d\<rparr>\<rparr>)
     = (fst (Submit_path r), (snd (Submit_path r))\<lparr>client := (client r)\<lparr>defaultHeaders := d\<rparr>\<rparr>)"
  by (simp add: Submit_path_def GetHost_def Let_def split: sum.splits)

lemma Submit_url_other_defaults:
  "Submit_url (r\<lparr>client := (client r)\<lparr>defaultHeaders := d\<rparr>\<rparr>)
     = (fst (Submit_url r), (snd (Submit_url r))\<lparr>client := (client r)\<lparr>defaultHeaders := d\<rparr>\<rparr>)"
proof -
  obtain x r1 where p: "Submit_path r = (x, r1)" by (cases "Submit_path r")
  obtain qs where r1: "r1 = r\<lparr>queries := qs\<rparr>" using Submit_path_frame [OF p] by blast
  show ?thesis
    unfolding Submit_url_def Submit_path_other_defaults p
    by (simp add: r1 GetUrlPrefix_def DefaultQueries_def Let_def split: sum.splits prod.splits)
qed

lemma Submit_userAgent_other_defaults:
  "Submit_userAgent (r\<lparr>client := (client r)\<lparr>defaultHeaders := d\<rparr>\<rparr>)
     = map_sum (\<lambda>e. e) (\<lambda>r2. r2\<lparr>client := (client r)\<lparr>defaultHeaders := d\<rparr>\<rparr>) (Submit_userAgent r)"
  by (simp add: Submit_userAgent_def AddHeader_def GetUserAgent_def split: option.splits sum.splits)

lemma Submit_request_other_defaults:
  assumes "skipDefaultHeaders r"
  shows "fst (Submit_request (r\<lparr>client := (client r)\<lparr>defaultHeaders := d\<rparr>\<rparr>))
     = fst (Submit_request r)"
proof -
  obtain x r1 where p: "Submit_url r = (x, r1)" by (cases "Submit_url r")
  obtain qs where r1: "r1 = r\<lparr>queries := qs\<rparr>" using Submit_url_frame [OF p] by blast
  have c: "r1\<lparr>client := (client r)\<lparr>defaultHeaders := d\<rparr>\<rparr>
      = r1\<lparr>client := (client r1)\<lparr>defaultHeaders := d\<rparr>\<rparr>"
    using r1 by simp
  have s: "skipDefaultHeaders r1" using r1 assms by simp
  show ?thesis
  proof (cases "Submit_userAgent r1")
    case (Inl e)
    then show ?thesis
      unfolding Submit_request_def Submit_url_other_defaults p
      by (simp add: c Submit_userAgent_other_defaults Let_def split: sum.splits)
  next
    case (Inr r2)
    obtain hs where r2: "r2 = r1\<lparr>req_headers := hs\<rparr>"
      using Submit_userAgent_frame [OF Inr] by blast
    show ?thesis
      unfolding Submit_request_def Submit_url_other_defaults p
      using Inr s by (auto simp: c Submit_userAgent_other_defaults r2 Let_def split: sum.splits)
  qed
qed

text \<open>
  Claim C9, as stated, fails for a composer that is submitted twice: \<open>Submit\<close> writes the
  user agent and the default headers of its call into the header map of the composer
  (lines 552 to 565). When the composer is submitted once without the flag, and then again
  with the skip-default-headers flag set, the default header \<open>X-Key: secret\<close> is on the
  second outgoing request, though the request never supplied it.
\<close>

theorem Submit_skip_after_submit_counterexample:
  "req_headers (apiGet ''/users'') = Some []
   \<and> req_headers (snd (Submit (\<lambda>s. s) (\<lambda>s. s) (apiGet ''/users'')))
       = Some [(''User-Agent'', [''ua'']), (''X-Key'', [''secret''])]
   \<and> skipDefaultHeaders (SkipDefaultHeaders (snd (Submit (\<lambda>s. s) (\<lambda>s. s) (apiGet ''/users''))))
   \<and> map_sum (\<lambda>e. e) ReqHeader
        (fst (Submit_request
               (SkipDefaultHeaders (snd (Submit (\<lambda>s. s) (\<lambda>s. s) (apiGet ''/users''))))))
       = Inr (Some [(''User-Agent'', [''ua'', ''ua'']), (''X-Key'', [''secret''])])"
  by code_simp

text \<open>
  Claim C9, amended. Let \<open>Submit\<close> get as far as the outgoing request, with headers of the
  composer that are a map. The working header set, which is the header map of the
  composer and stays in it after the call, then holds under every key the values that
  the composer had when \<open>Submit\<close> was called, then the user agent (under \<open>User-Agent\<close>; it
  is a field of its own, not one of the default headers), then, unless the
  skip-default-headers flag is set, the values that the default headers of the profile
  hold under the keys with that canonical form. The outgoing request carries under a key
  exactly the values that the working set holds under the keys with that canonical form.
  So with the flag set this call adds no default header: the outgoing request is the same
  whatever default headers the profile holds, and it carries exactly the values that the
  map of the composer held at the call and the user agent; among them are the default
  headers that an earlier \<open>Submit\<close> of the same composer wrote into the map. Without the
  flag every value of every default header is on the outgoing request.
\<close>

theorem Submit_default_headers:
  assumes "fst (Submit_url r) = Inr url"
    and "http_NewRequest (req_method r) url (req_body r) = Inr req0"
    and "req_headers r = Some h0"
  shows "\<exists>req W out.
       fst (Submit_request r) = Inr req \<and> ReqHeader req = Some out
     \<and> req_headers (snd (Submit_request r)) = Some W
     \<and> (\<forall>k. map_index W k = map_index h0 k
            @ (if k = ''User-Agent'' then userAgentValues r else [])
            @ (if skipDefaultHeaders r then [] else valuesUnder (DefaultHeaders (client r)) k))
     \<and> (\<forall>K. map_index out K = valuesUnder (Some W) K)
     \<and> (\<forall>K v. v \<in> set (map_index out K)
            \<longleftrightarrow> (\<exists>k. CanonicalMIMEHeaderKey k = K \<and> v \<in> set (map_index W k)))
     \<and> (skipDefaultHeaders r \<longrightarrow>
          (\<forall>d. fst (Submit_request (r\<lparr>client := (client r)\<lparr>defaultHeaders := d\<rparr>\<rparr>)) = Inr req))
     \<and> (skipDefaultHeaders r \<longrightarrow>
          (\<forall>K v. v \<in> set (map_index out K)
             \<longleftrightarrow> v \<in> set (valuesUnder (Some h0) K)
                 \<or> (K = ''User-Agent'' \<and> v \<in> set (userAgentValues r))))
     \<and> (\<not> skipDefaultHeaders r \<longrightarrow>
          (\<forall>k vs v. (k, vs) \<in> set (gomap_range (DefaultHeaders (client r))) \<and> v \<in> set vs
             \<longrightarrow> v \<in> set (map_index out (CanonicalMIMEHeaderKey k))))"
proof -
  obtain r1 where p: "Submit_url r = (Inr url, r1)"
    using assms(1) by (cases "Submit_url r") auto
  let ?req0 = "if ctx r \<noteq> None then req0\<lparr>Ctx := ctx r\<rparr> else req0"
  obtain W out where m: "Submit_request r =
        (Inr (?req0\<lparr>ReqHeader := Some out\<rparr>), r1\<lparr>req_headers := Some W\<rparr>)"
     "\<forall>k. map_index W k = map_index h0 k
            @ (if k = ''User-Agent'' then userAgentValues r else [])
            @ (if skipDefaultHeaders r then [] else valuesUnder (DefaultHeaders (client r)) k)"
     "\<forall>K. map_index out K = valuesUnder (Some W) K"
    using Submit_headers_merged [OF p assms(2,3)] by blast
  let ?req = "?req0\<lparr>ReqHeader := Some out\<rparr>"
  have 1: "fst (Submit_request r) = Inr ?req" "ReqHeader ?req = Some out"
    "req_headers (snd (Submit_request r)) = Some W"
    using m(1) by simp_all
  have 2: "\<forall>K v. v \<in> set (map_index out K)
            \<longleftrightarrow> (\<exists>k. CanonicalMIMEHeaderKey k = K \<and> v \<in> set (map_index W k))"
    using m(3) valuesUnder_member by simp
  have 3: "skipDefaultHeaders r \<longrightarrow>
          (\<forall>d. fst (Submit_request (r\<lparr>client := (client r)\<lparr>defaultHeaders := d\<rparr>\<rparr>)) = Inr ?req)"
    using Submit_request_other_defaults [of r] 1(1) by simp
  have 4: "\<not> skipDefaultHeaders r \<longrightarrow>
          (\<forall>k vs v. (k, vs) \<in> set (gomap_range (DefaultHeaders (client r))) \<and> v \<in> set vs
             \<longrightarrow> v \<in> set (map_index out (CanonicalMIMEHeaderKey k)))"
  proof (intro impI allI)
    fix k vs v
    assume s: "\<not> skipDefaultHeaders r"
      and d: "(k, vs) \<in> set (gomap_range (DefaultHeaders (client r))) \<and> v \<in> set vs"
    have "v \<in> set (valuesUnder (DefaultHeaders (client r)) (CanonicalMIMEHeaderKey k))"
      using d valuesUnder_default by blast
    then have "v \<in> set (map_index W (CanonicalMIMEHeaderKey k))"
      using m(2) s by simp
    then show "v \<in> set (map_index out (CanonicalMIMEHeaderKey k))"
      using 2 Canonical_idem by blast
  qed
  have 5: "skipDefaultHeaders r \<longrightarrow>
          (\<forall>K v. v \<in> set (map_index out K)
             \<longleftrightarrow> v \<in> set (valuesUnder (Some h0) K)
                 \<or> (K = ''User-Agent'' \<and> v \<in> set (userAgentValues r)))"
  proof (intro impI allI)
    fix K v
    assume s: "skipDefaultHeaders r"
    have w: "\<And>k. map_index W k
        = map_index h0 k @ (if k = ''User-Agent'' then userAgentValues r else [])"
      using m(2) s by simp
    show "v \<in> set (map_index out K)
             \<longleftrightarrow> v \<in> set (valuesUnder (Some h0) K)
                 \<or> (K = ''User-Agent'' \<and> v \<in> set (userAgentValues r))"
    proof
      assume "v \<in> set (map_index out K)"
      then obtain k where k: "CanonicalMIMEHeaderKey k = K" "v \<in> set (map_index W k)"
        using 2 by blast
      then consider (held) "v \<in> set (map_index h0 k)"
        | (agent) "k = ''User-Agent''" "v \<in> set (userAgentValues r)"
        unfolding w by (auto split: if_splits)
      then show "v \<in> set (valuesUnder (Some h0) K)
                 \<or> (K = ''User-Agent'' \<and> v \<in> set (userAgentValues r))"
      proof cases
        case held
        then show ?thesis using k(1) valuesUnder_member by blast
      next
        case agent
        then show ?thesis using k(1) Canonical_User_Agent by simp
      qed
    next
      assume "v \<in> set (valuesUnder (Some h0) K)
                 \<or> (K = ''User-Agent'' \<and> v \<in> set (userAgentValues r))"
      then consider (held) k where "CanonicalMIMEHeaderKey k = K" "v \<in> set (map_index h0 k)"
        | (agent) "K = ''User-Agent''" "v \<in> set (userAgentValues r)"
        using valuesUnder_member by blast
      then show "v \<in> set (map_index out K)"
      proof cases
        case held
        then have "v \<in> set (map_index W k)" unfolding w by simp
        then show ?thesis using 2 held(1) by blast
      next
        case agent
        then have "v \<in> set (map_index W ''User-Agent'')" unfolding w by simp
        then show ?thesis using 2 agent(1) Canonical_User_Agent by blast
      qed
    qed
  qed
  from 1 m(2) m(3) 2 3 4 5 show ?thesis by blast
qed

theorem Submit_default_headers_witness:
  "(\<exists>req out. fst (Submit_request apiSkip) = Inr req \<and> ReqHeader req = Some out
      \<and> (\<forall>K v. v \<in> set (map_index out K) \<longleftrightarrow> K = ''User-Agent'' \<and> v = ''ua'')
      \<and> fst (Submit_request (apiSkip\<lparr>client := (client apiSkip)\<lparr>defaultHeaders := None\<rparr>\<rparr>))
          = Inr req)
   \<and> (\<exists>req out. fst (Submit_request (apiGet ''/users'')) = Inr req \<and> ReqHeader req = Some out
      \<and> ''secret'' \<in> set (map_index out ''X-Key''))"
proof -
  let ?url = "''https://api.example.com/v1/users?a=2''"
  let ?new = "\<lparr>Method = ''GET'', URL = ?url, ReqHeader = Some [], ReqBody = [], Ctx = None\<rparr>"
  have h: "fst (Submit_url apiSkip) = Inr ?url"
    "http_NewRequest (req_method apiSkip) ?url (req_body apiSkip) = Inr ?new"
    "req_headers apiSkip = Some []"
    by code_simp+
  have g: "fst (Submit_url (apiGet ''/users'')) = Inr ?url"
    "http_NewRequest (req_method (apiGet ''/users'')) ?url (req_body (apiGet ''/users'')) = Inr ?new"
    "req_headers (apiGet ''/users'') = Some []"
    by code_simp+
  have v: "skipDefaultHeaders apiSkip" "userAgentValues apiSkip = [''ua'']"
    "\<not> skipDefaultHeaders (apiGet ''/users'')"
    "(''X-Key'', [''secret'']) \<in> set (gomap_range (DefaultHeaders (client (apiGet ''/users''))))"
    "CanonicalMIMEHeaderKey ''X-Key'' = ''X-Key''"
    by code_simp+
  obtain req W out where a: "fst (Submit_request apiSkip) = Inr req" "ReqHeader req = Some out"
    "\<forall>k. map_index W k = map_index [] k
            @ (if k = ''User-Agent'' then userAgentValues apiSkip else [])
            @ (if skipDefaultHeaders apiSkip then []
               else valuesUnder (DefaultHeaders (client apiSkip)) k)"
    "\<forall>K v. v \<in> set (map_index out K)
            \<longleftrightarrow> (\<exists>k. CanonicalMIMEHeaderKey k = K \<and> v \<in> set (map_index W k))"
    "skipDefaultHeaders apiSkip \<longrightarrow>
          (\<forall>d. fst (Submit_request (apiSkip\<lparr>client := (client apiSkip)\<lparr>defaultHeaders := d\<rparr>\<rparr>))
             = Inr req)"
    using Submit_default_headers [OF h] by (elim exE conjE) (rule that; assumption)
  have w: "\<forall>k. map_index W k = (if k = ''User-Agent'' then [''ua''] else [])"
    using a(3) v(1,2) by (simp add: map_index_def map_get_def)
  have "\<forall>K v. v \<in> set (map_index out K) \<longleftrightarrow> K = ''User-Agent'' \<and> v = ''ua''"
    using a(4) w Canonical_User_Agent by (auto split: if_splits)
  then have first: "\<exists>req out. fst (Submit_request apiSkip) = Inr req \<and> ReqHeader req = Some out
      \<and> (\<forall>K v. v \<in> set (map_index out K) \<longleftrightarrow> K = ''User-Agent'' \<and> v = ''ua'')
      \<and> fst (Submit_request (apiSkip\<lparr>client := (client apiSkip)\<lparr>defaultHeaders := None\<rparr>\<rparr>))
          = Inr req"
    using a(1,2,5) v(1) by blast
  obtain req' out' where b: "fst (Submit_request (apiGet ''/users'')) = Inr req'"
    "ReqHeader req' = Some out'"
    "\<not> skipDefaultHeaders (apiGet ''/users'') \<longrightarrow>
          (\<forall>k vs v. (k, vs) \<in> set (gomap_range (DefaultHeaders (client (apiGet ''/users''))))
              \<and> v \<in> set vs
             \<longrightarrow> v \<in> set (map_index out' (CanonicalMIMEHeaderKey k)))"
    using Submit_default_headers [OF g] by (elim exE conjE) (rule that; assumption)
  have "''secret'' \<in> set (map_index out' ''X-Key'')"
    using b(3) v(3,4,5) by force
  then show ?thesis using first b(1,2) by blast
qed

section \<open>The composer after \<open>Submit\<close>\<close>

lemma Submit_snd: "snd (Submit unicodeLower sp r) = snd (Submit_request r)"
  by (simp add: Submit_def Let_def split: prod.splits sum.splits)

lemma Submit_request_queries: "queries (snd (Submit_request r)) = queries (snd (Submit_url r))"
proof -
  obtain x r1 where p: "Submit_url r = (x, r1)" by (cases "Submit_url r")
  have "snd (Submit_request r) = r1
      \<or> (\<exists>r2. Submit_userAgent r1 = Inr r2
            \<and> (snd (Submit_request r) = r2 \<or> (\<exists>hs. snd (Submit_request r) = r2\<lparr>req_headers := hs\<rparr>)))"
    using p by (auto simp: Submit_request_def Let_def split: if_splits sum.splits prod.splits)
  then show ?thesis
    using Submit_userAgent_frame p by fastforce
qed

text \<open>A path that does not parse ends \<open>Submit\<close> before it has written anything.\<close>

lemma Submit_parse_error:
  assumes "path r \<noteq> []" and "url_Parse (strings_TrimPrefix (path r) ''/'') = Inl err"
  shows "Submit unicodeLower sp r = (Inl err, r)"
  using assms by (simp add: Submit_def Submit_request_def Submit_url_def Submit_path_def Let_def)

text \<open>The headers are written after \<open>http.NewRequest\<close> has accepted the method and the URL.\<close>

lemma Submit_request_headers_kept:
  assumes "(\<exists>e. fst (Submit_url r) = Inl e)
      \<or> (\<exists>url e. fst (Submit_url r) = Inr url
            \<and> http_NewRequest (req_method r) url (req_body r) = Inl e)"
  shows "req_headers (snd (Submit_request r)) = req_headers r"
proof -
  obtain x r1 where p: "Submit_url r = (x, r1)" by (cases "Submit_url r")
  obtain qs where r1: "r1 = r\<lparr>queries := qs\<rparr>" using Submit_url_frame [OF p] by blast
  show ?thesis
    using assms p r1 by (cases x) (auto simp: Submit_request_def)
qed

text \<open>A nil map stays nil: \<open>Add\<close> panics on it.\<close>

lemma addEach_nil:
  assumes "\<And>k v. \<exists>e. add None k v = Inl e"
  shows "addEach add None k vs = Inr q \<Longrightarrow> q = None"
proof (cases vs)
  case Nil
  assume "addEach add None k vs = Inr q"
  then show ?thesis using Nil by simp
next
  case (Cons v vs')
  assume a: "addEach add None k vs = Inr q"
  obtain e where "add None k v = Inl e" using assms by blast
  then show ?thesis using a Cons by simp
qed

lemma addAll_nil:
  assumes "\<And>k v. \<exists>e. add None k v = Inl e"
  shows "addAll add None src = Inr q \<Longrightarrow> q = None"
proof (induction src)
  case Nil
  then show ?case by simp
next
  case (Cons p src)
  obtain k vs where p: "p = (k, vs)" by (cases p)
  show ?case
  proof (cases "addEach add None k vs")
    case (Inl e)
    then show ?thesis using Cons.prems p by simp
  next
    case (Inr d)
    then have "d = None" using addEach_nil [where add = add, OF assms] by blast
    then show ?thesis using Cons Inr p by simp
  qed
qed

lemma Values_Add_nil: "\<exists>e. Values_Add None k v = Inl e"
  by (simp add: Values_Add_def)

lemma Header_Add_nil: "\<exists>e. Header_Add None k v = Inl e"
  by (simp add: Header_Add_def)

lemma Submit_url_queries_nil:
  assumes "queries r = None"
  shows "queries (snd (Submit_url r)) = None"
proof -
  obtain x r0 where p: "Submit_path r = (x, r0)" by (cases "Submit_path r")
  have q0: "queries r0 = None"
    using p assms addAll_nil [of Values_Add, OF Values_Add_nil]
    by (auto simp: Submit_path_def Let_def split: if_splits sum.splits)
  show ?thesis
    using p q0 addAll_nil [of Values_Add, OF Values_Add_nil]
    by (cases x) (auto simp: Submit_url_def Let_def split: if_splits sum.splits prod.splits)
qed

lemma Submit_request_headers_nil:
  assumes "req_headers r = None"
  shows "req_headers (snd (Submit_request r)) = None"
proof -
  obtain x r1 where p: "Submit_url r = (x, r1)" by (cases "Submit_url r")
  obtain qs where r1: "r1 = r\<lparr>queries := qs\<rparr>" using Submit_url_frame [OF p] by blast
  have h1: "req_headers r1 = None" using r1 assms by simp
  have ua: "\<And>r2. Submit_userAgent r1 = Inr r2 \<Longrightarrow> r2 = r1"
    using h1
    by (auto simp: Submit_userAgent_def AddHeader_def Header_Add_def split: option.splits if_splits)
  show ?thesis
    using p h1 ua addAll_nil [of Header_Add, OF Header_Add_nil]
    by (cases x) (auto simp: Submit_request_def Let_def split: if_splits sum.splits)
qed

text \<open>
  Claim C10, as stated, fails: \<open>Submit\<close> writes to the query and header maps of the
  composer. After one \<open>Submit\<close> of \<open>GET /users?a=1\<close> the queries of the composer hold
  \<open>a = [1, 2]\<close> and its headers the user agent and the default header, and a second
  \<open>Submit\<close> from the same composer would resolve another URL than the first.
\<close>

theorem Submit_mutates_composer_counterexample:
  "queries (apiGet ''/users?a=1'') = Some []
   \<and> queries (snd (Submit (\<lambda>s. s) (\<lambda>s. s) (apiGet ''/users?a=1''))) = Some [(''a'', [''1'', ''2''])]
   \<and> req_headers (apiGet ''/users?a=1'') = Some []
   \<and> req_headers (snd (Submit (\<lambda>s. s) (\<lambda>s. s) (apiGet ''/users?a=1'')))
       = Some [(''User-Agent'', [''ua'']), (''X-Key'', [''secret''])]
   \<and> fst (Submit_url (apiGet ''/users?a=1'')) = Inr ''https://api.example.com/v1/users?a=1&a=2''
   \<and> fst (Submit_url (snd (Submit (\<lambda>s. s) (\<lambda>s. s) (apiGet ''/users?a=1''))))
       = Inr ''https://api.example.com/v1/users?a=1&a=2&a=1&a=2''"
  by code_simp

text \<open>
  Claim C10, amended. \<open>Submit\<close> changes the query map and the header map of the composer
  and nothing else of it, and what it has written stays when it fails later.

  The queries. A stored path that is not empty and does not parse ends \<open>Submit\<close> with
  the composer as it was. Otherwise, when the queries are a map, they hold afterwards,
  under every key, the values they had, then the query values of the path (none for the
  empty stored path), then (unless skipped) the default queries; this is so also when
  \<open>Submit\<close> fails after that, at \<open>http.NewRequest\<close> or at the call. Nil queries stay nil.

  The headers. When the URL is not built, or \<open>http.NewRequest\<close> refuses the method or the
  URL, the headers are as they were. When \<open>Submit\<close> gets as far as the outgoing request
  and the headers are a map, they hold afterwards the values they had, then the user
  agent, then (unless skipped) the default headers. Nil headers stay nil.

  So a second \<open>Submit\<close> from the same composer starts from the accumulated maps.

  The redirect counter. The counter is a local variable of the call, seeded with the
  budget of the composer, which the call does not change. So the second \<open>Submit\<close> from the
  composer has the whole budget \<open>N\<close> again, whatever the first did: it follows a chain of
  \<open>N\<close> redirects to its end, and fails with \<open>TooManyRedirects\<close> on a chain of \<open>N + 1\<close>.
\<close>

theorem Submit_composer_state:
  "(\<exists>qs hs. snd (Submit unicodeLower stripPassword r) = r\<lparr>queries := qs, req_headers := hs\<rparr>)
   \<and> (path r \<noteq> [] \<and> url_Parse (strings_TrimPrefix (path r) ''/'') = Inl err \<longrightarrow>
        Submit unicodeLower stripPassword r = (Inl err, r))
   \<and> (path r = [] \<and> queries r = Some q0 \<longrightarrow>
        (\<exists>W. queries (snd (Submit unicodeLower stripPassword r)) = Some W
           \<and> (\<forall>k. map_index W k = map_index q0 k
                 @ (if skipDefaultQueries r then []
                    else gomap_index (DefaultQueries (client r)) k))))
   \<and> (path r \<noteq> [] \<and> url_Parse (strings_TrimPrefix (path r) ''/'') = Inr u
        \<and> queries r = Some q0 \<longrightarrow>
        (\<exists>W. queries (snd (Submit unicodeLower stripPassword r)) = Some W
           \<and> (\<forall>k. map_index W k = map_index q0 k @ map_index (URL_Query u) k
                 @ (if skipDefaultQueries r then []
                    else gomap_index (DefaultQueries (client r)) k))))
   \<and> (queries r = None \<longrightarrow> queries (snd (Submit unicodeLower stripPassword r)) = None)
   \<and> ((\<exists>e. fst (Submit_url r) = Inl e)
        \<or> (\<exists>url e. fst (Submit_url r) = Inr url
              \<and> http_NewRequest (req_method r) url (req_body r) = Inl e) \<longrightarrow>
        req_headers (snd (Submit unicodeLower stripPassword r)) = req_headers r)
   \<and> (fst (Submit_url r) = Inr url \<and> http_NewRequest (req_method r) url (req_body r) = Inr req0
        \<and> req_headers r = Some h0 \<longrightarrow>
        (\<exists>W. req_headers (snd (Submit unicodeLower stripPassword r)) = Some W
           \<and> (\<forall>k. map_index W k = map_index h0 k
                 @ (if k = ''User-Agent'' then userAgentValues r else [])
                 @ (if skipDefaultHeaders r then []
                    else valuesUnder (DefaultHeaders (client r)) k))))
   \<and> (req_headers r = None \<longrightarrow>
        req_headers (snd (Submit unicodeLower stripPassword r)) = None)
   \<and> effectiveMaxRedirects (snd (Submit unicodeLower stripPassword r)) = effectiveMaxRedirects r
   \<and> (effectiveMaxRedirects r = int N
        \<and> fst (Submit_request (snd (Submit unicodeLower stripPassword r))) = Inr req2 \<longrightarrow>
        (redirectChain (GetTransport (client r)) (effectiveTimeout r) req2 N resp \<longrightarrow>
           fst (Submit unicodeLower stripPassword (snd (Submit unicodeLower stripPassword r)))
             = newHttpResponse unicodeLower resp
           \<and> snd (client_Do stripPassword (GetTransport (client r)) (effectiveTimeout r) (int N)
                    (urlErrorOp (Method req2)) req2 0) = N)
        \<and> (redirectChain (GetTransport (client r)) (effectiveTimeout r) req2 (Suc N) resp \<longrightarrow>
           (\<exists>e. fst (Submit unicodeLower stripPassword
                        (snd (Submit unicodeLower stripPassword r))) = Inl e
              \<and> errors_Is e TooManyRedirects)
           \<and> snd (client_Do stripPassword (GetTransport (client r)) (effectiveTimeout r) (int N)
                    (urlErrorOp (Method req2)) req2 0) = N))"
proof -
  let ?S = "Submit unicodeLower stripPassword r"
  obtain x r1 where s: "?S = (x, r1)" by (cases ?S)
  obtain qs hs where f: "r1 = r\<lparr>queries := qs, req_headers := hs\<rparr>"
    using Submit_frame [OF s] by blast
  have c1: "\<exists>qs hs. snd ?S = r\<lparr>queries := qs, req_headers := hs\<rparr>"
    using s f by auto
  have c2: "path r \<noteq> [] \<and> url_Parse (strings_TrimPrefix (path r) ''/'') = Inl err \<longrightarrow>
        ?S = (Inl err, r)"
    using Submit_parse_error by blast
  have c3: "path r = [] \<and> queries r = Some q0 \<longrightarrow>
        (\<exists>W. queries (snd ?S) = Some W
           \<and> (\<forall>k. map_index W k = map_index q0 k
                 @ (if skipDefaultQueries r then []
                    else gomap_index (DefaultQueries (client r)) k)))"
  proof
    assume a: "path r = [] \<and> queries r = Some q0"
    obtain W where W: "Submit_url r =
           (Inr (GetHost (client r) @ GetUrlPrefix (client r) @ []
                  @ (if W = [] then [] else ''?'' @ Values_Encode (Some W))),
            r\<lparr>queries := Some W\<rparr>)"
      "\<forall>k. map_index W k = map_index q0 k
               @ (if skipDefaultQueries r then [] else gomap_index (DefaultQueries (client r)) k)"
      using Submit_url_empty_path [of r q0] a by blast
    have "queries (snd ?S) = Some W"
      using W(1) by (simp add: Submit_snd Submit_request_queries)
    then show "\<exists>W. queries (snd ?S) = Some W
           \<and> (\<forall>k. map_index W k = map_index q0 k
                 @ (if skipDefaultQueries r then []
                    else gomap_index (DefaultQueries (client r)) k))"
      using W(2) by blast
  qed
  have c4: "path r \<noteq> [] \<and> url_Parse (strings_TrimPrefix (path r) ''/'') = Inr u
        \<and> queries r = Some q0 \<longrightarrow>
        (\<exists>W. queries (snd ?S) = Some W
           \<and> (\<forall>k. map_index W k = map_index q0 k @ map_index (URL_Query u) k
                 @ (if skipDefaultQueries r then []
                    else gomap_index (DefaultQueries (client r)) k)))"
  proof
    assume a: "path r \<noteq> [] \<and> url_Parse (strings_TrimPrefix (path r) ''/'') = Inr u
        \<and> queries r = Some q0"
    obtain W where W: "Submit_url r =
           (Inr ((if Host u \<noteq> [] then Scheme u @ ''://'' @ Host u else GetHost (client r))
                  @ GetUrlPrefix (client r) @ (''/'' @ Path u)
                  @ (if W = [] then [] else ''?'' @ Values_Encode (Some W))),
            r\<lparr>queries := Some W\<rparr>)"
      "\<forall>k. map_index W k = map_index q0 k @ map_index (URL_Query u) k
               @ (if skipDefaultQueries r then [] else gomap_index (DefaultQueries (client r)) k)"
      using Submit_url_parsed [of r u q0] a by blast
    have "queries (snd ?S) = Some W"
      using W(1) by (simp add: Submit_snd Submit_request_queries)
    then show "\<exists>W. queries (snd ?S) = Some W
           \<and> (\<forall>k. map_index W k = map_index q0 k @ map_index (URL_Query u) k
                 @ (if skipDefaultQueries r then []
                    else gomap_index (DefaultQueries (client r)) k))"
      using W(2) by blast
  qed
  have c5: "queries r = None \<longrightarrow> queries (snd ?S) = None"
    using Submit_url_queries_nil by (simp add: Submit_snd Submit_request_queries)
  have c6: "(\<exists>e. fst (Submit_url r) = Inl e)
        \<or> (\<exists>url e. fst (Submit_url r) = Inr url
              \<and> http_NewRequest (req_method r) url (req_body r) = Inl e) \<longrightarrow>
        req_headers (snd ?S) = req_headers r"
    using Submit_request_headers_kept by (simp add: Submit_snd)
  have c7: "fst (Submit_url r) = Inr url \<and> http_NewRequest (req_method r) url (req_body r) = Inr req0
        \<and> req_headers r = Some h0 \<longrightarrow>
        (\<exists>W. req_headers (snd ?S) = Some W
           \<and> (\<forall>k. map_index W k = map_index h0 k
                 @ (if k = ''User-Agent'' then userAgentValues r else [])
                 @ (if skipDefaultHeaders r then []
                    else valuesUnder (DefaultHeaders (client r)) k)))"
  proof
    assume a: "fst (Submit_url r) = Inr url
        \<and> http_NewRequest (req_method r) url (req_body r) = Inr req0 \<and> req_headers r = Some h0"
    obtain r0 where p: "Submit_url r = (Inr url, r0)"
      using a by (cases "Submit_url r") auto
    obtain W out where m: "Submit_request r =
        (Inr ((if ctx r \<noteq> None then req0\<lparr>Ctx := ctx r\<rparr> else req0)\<lparr>ReqHeader := Some out\<rparr>),
         r0\<lparr>req_headers := Some W\<rparr>)"
       "\<forall>k. map_index W k = map_index h0 k
            @ (if k = ''User-Agent'' then userAgentValues r else [])
            @ (if skipDefaultHeaders r then [] else valuesUnder (DefaultHeaders (client r)) k)"
      using Submit_headers_merged [OF p, of req0 h0] a by blast
    have "req_headers (snd ?S) = Some W"
      using m(1) by (simp add: Submit_snd)
    then show "\<exists>W. req_headers (snd ?S) = Some W
           \<and> (\<forall>k. map_index W k = map_index h0 k
                 @ (if k = ''User-Agent'' then userAgentValues r else [])
                 @ (if skipDefaultHeaders r then []
                    else valuesUnder (DefaultHeaders (client r)) k))"
      using m(2) by blast
  qed
  have c8: "req_headers r = None \<longrightarrow> req_headers (snd ?S) = None"
    using Submit_request_headers_nil by (simp add: Submit_snd)
  have k: "effectiveMaxRedirects r1 = effectiveMaxRedirects r"
    "effectiveTimeout r1 = effectiveTimeout r" "client r1 = client r"
    using f by (simp_all add: effectiveMaxRedirects_def effectiveTimeout_def cong: option.case_cong)
  have c9: "effectiveMaxRedirects (snd ?S) = effectiveMaxRedirects r"
    using s k by simp
  let ?rt = "GetTransport (client r)" and ?t = "effectiveTimeout r"
  let ?op = "urlErrorOp (Method req2)"
  let ?T = "Submit unicodeLower stripPassword (snd ?S)"
  have c10: "effectiveMaxRedirects r = int N \<and> fst (Submit_request (snd ?S)) = Inr req2 \<longrightarrow>
        (redirectChain ?rt ?t req2 N resp \<longrightarrow>
           fst ?T = newHttpResponse unicodeLower resp
           \<and> snd (client_Do stripPassword ?rt ?t (int N) ?op req2 0) = N)
        \<and> (redirectChain ?rt ?t req2 (Suc N) resp \<longrightarrow>
           (\<exists>e. fst ?T = Inl e \<and> errors_Is e TooManyRedirects)
           \<and> snd (client_Do stripPassword ?rt ?t (int N) ?op req2 0) = N)"
  proof (intro impI conjI)
    assume a: "effectiveMaxRedirects r = int N \<and> fst (Submit_request (snd ?S)) = Inr req2"
    have q: "fst (Submit_request r1) = Inr req2" using a s by simp
    have d: "fst (Submit unicodeLower stripPassword r1) =
       (case fst (client_Do stripPassword ?rt ?t (int N) ?op req2 0) of
          Inl err \<Rightarrow> Inl err
        | Inr response \<Rightarrow> newHttpResponse unicodeLower response)"
      using Submit_as_client_Do [OF q, of unicodeLower stripPassword] a k by simp
    {
      assume c: "redirectChain ?rt ?t req2 N resp"
      have e: "client_Do stripPassword ?rt ?t (int N) ?op req2 0 = (Inr resp, N)"
        using client_Do_chain [OF c, of "int N" stripPassword ?op 0] by simp
      show "fst ?T = newHttpResponse unicodeLower resp" using d e s by simp
      show "snd (client_Do stripPassword ?rt ?t (int N) ?op req2 0) = N" using e by simp
    }
    {
      assume c: "redirectChain ?rt ?t req2 (Suc N) resp"
      have e: "client_Do stripPassword ?rt ?t (int N) ?op req2 0
          = (Inl (UrlError ?op (hopLocation ?rt ?t req2 N) TooManyRedirects), N)"
        using client_Do_exhausted [OF c, of "int N" stripPassword ?op 0] by simp
      have "fst ?T = Inl (UrlError ?op (hopLocation ?rt ?t req2 N) TooManyRedirects)"
        using d e s by simp
      then show "\<exists>e. fst ?T = Inl e \<and> errors_Is e TooManyRedirects" by simp
      show "snd (client_Do stripPassword ?rt ?t (int N) ?op req2 0) = N" using e by simp
    }
  qed
  show ?thesis
    by (intro conjI) (rule c1 c2 c3 c4 c5 c6 c7 c8 c9 c10)+
qed

theorem Submit_composer_state_witness:
  "(\<exists>W. queries (snd (Submit (\<lambda>s. s) (\<lambda>s. s) (apiGet ''/users?a=1''))) = Some W
      \<and> map_index W ''a'' = [''1'', ''2''])
   \<and> (\<exists>W. req_headers (snd (Submit (\<lambda>s. s) (\<lambda>s. s) (apiGet ''/users?a=1''))) = Some W
      \<and> map_index W ''User-Agent'' = [''ua''] \<and> map_index W ''X-Key'' = [''secret''])
   \<and> (\<exists>W. queries (snd (Submit (\<lambda>s. s) (\<lambda>s. s) (apiGet []))) = Some W
      \<and> map_index W ''a'' = [''2''])
   \<and> fst (Submit (\<lambda>s. s) (\<lambda>s. s) (apiGet ''/%zz''))
       = Inl (UrlError ''parse'' ''%zz'' (EscapeError ''%zz''))
   \<and> queries (snd (Submit (\<lambda>s. s) (\<lambda>s. s) (apiGet ''/%zz''))) = Some []
   \<and> req_headers (snd (Submit (\<lambda>s. s) (\<lambda>s. s) ((apiGet ''/users?a=1'')\<lparr>req_method := ''B D''\<rparr>)))
       = Some []
   \<and> queries (snd (Submit (\<lambda>s. s) (\<lambda>s. s) (request_Queries (apiGet []) None))) = None
   \<and> req_headers (snd (Submit (\<lambda>s. s) (\<lambda>s. s) (request_Headers (apiGet []) None))) = None
   \<and> effectiveMaxRedirects (snd (Submit (\<lambda>s. s) (\<lambda>s. s) (apiGet ''/users?a=1''))) = 10
   \<and> fst (Submit (\<lambda>s. s) (\<lambda>s. s) (snd (Submit (\<lambda>s. s) (\<lambda>s. s) (hopGet ''/0''))))
       = newHttpResponse (\<lambda>s. s) okResponse
   \<and> (\<exists>e. fst (Submit (\<lambda>s. s) (\<lambda>s. s)
                (snd (Submit (\<lambda>s. s) (\<lambda>s. s) (request_MaxRedirects (hopGet ''/0'') 1)))) = Inl e
        \<and> errors_Is e TooManyRedirects)"
proof -
  let ?r = "apiGet ''/users?a=1''"
  let ?u = "emptyURL\<lparr>Path := ''users'', RawQuery := ''a=1''\<rparr>"
  let ?url = "''https://api.example.com/v1/users?a=1&a=2''"
  let ?new = "\<lparr>Method = ''GET'', URL = ?url, ReqHeader = Some [], ReqBody = [], Ctx = None\<rparr>"
  let ?E = "UrlError ''parse'' ''%zz'' (EscapeError ''%zz'')"
  let ?b = "(apiGet ''/users?a=1'')\<lparr>req_method := ''B D''\<rparr>"
  let ?h = "hopGet ''/0''"
  let ?h1 = "request_MaxRedirects (hopGet ''/0'') 1"
  note T = Submit_composer_state [where unicodeLower = "\<lambda>s. s" and stripPassword = "\<lambda>s. s"]
  have h1: "path ?r \<noteq> [] \<and> url_Parse (strings_TrimPrefix (path ?r) ''/'') = Inr ?u
      \<and> queries ?r = Some []"
    by code_simp
  have h2: "fst (Submit_url ?r) = Inr ?url
      \<and> http_NewRequest (req_method ?r) ?url (req_body ?r) = Inr ?new \<and> req_headers ?r = Some []"
    by code_simp
  have g: "map_index [] ''a'' @ map_index (URL_Query ?u) ''a''
        @ (if skipDefaultQueries ?r then [] else gomap_index (DefaultQueries (client ?r)) ''a'')
        = [''1'', ''2'']"
    "map_index [] ''User-Agent'' @ (if ''User-Agent'' = ''User-Agent'' then userAgentValues ?r else [])
        @ (if skipDefaultHeaders ?r then []
           else valuesUnder (DefaultHeaders (client ?r)) ''User-Agent'') = [''ua'']"
    "map_index [] ''X-Key'' @ (if ''X-Key'' = ''User-Agent'' then userAgentValues ?r else [])
        @ (if skipDefaultHeaders ?r then []
           else valuesUnder (DefaultHeaders (client ?r)) ''X-Key'') = [''secret'']"
    "effectiveMaxRedirects ?r = 10"
    "map_index [] ''a''
        @ (if skipDefaultQueries (apiGet []) then []
           else gomap_index (DefaultQueries (client (apiGet []))) ''a'') = [''2'']"
    by code_simp+
  obtain W where W: "queries (snd (Submit (\<lambda>s. s) (\<lambda>s. s) ?r)) = Some W"
    "\<forall>k. map_index W k = map_index [] k @ map_index (URL_Query ?u) k
        @ (if skipDefaultQueries ?r then [] else gomap_index (DefaultQueries (client ?r)) k)"
    using T [where r = ?r and u = ?u and ?q0.0 = "[]", THEN conjunct2, THEN conjunct2,
        THEN conjunct2, THEN conjunct1, THEN mp, OF h1]
    by blast
  have 1: "\<exists>W. queries (snd (Submit (\<lambda>s. s) (\<lambda>s. s) ?r)) = Some W
      \<and> map_index W ''a'' = [''1'', ''2'']"
    using W(1) W(2) [THEN spec, of "''a''"] g(1) by simp
  obtain H where H: "req_headers (snd (Submit (\<lambda>s. s) (\<lambda>s. s) ?r)) = Some H"
    "\<forall>k. map_index H k = map_index [] k
        @ (if k = ''User-Agent'' then userAgentValues ?r else [])
        @ (if skipDefaultHeaders ?r then [] else valuesUnder (DefaultHeaders (client ?r)) k)"
    using T [where r = ?r and url = ?url and ?req0.0 = ?new and ?h0.0 = "[]", THEN conjunct2,
        THEN conjunct2, THEN conjunct2, THEN conjunct2, THEN conjunct2, THEN conjunct2,
        THEN conjunct1, THEN mp, OF h2]
    by blast
  have 2: "\<exists>W. req_headers (snd (Submit (\<lambda>s. s) (\<lambda>s. s) ?r)) = Some W
      \<and> map_index W ''User-Agent'' = [''ua''] \<and> map_index W ''X-Key'' = [''secret'']"
    using H(1) H(2) [THEN spec, of "''User-Agent''"] H(2) [THEN spec, of "''X-Key''"] g(2,3)
    by simp
  have e1: "path (apiGet []) = [] \<and> queries (apiGet []) = Some []"
    by (simp add: apiGet_def NewHttpRequest_def)
  obtain V where V: "queries (snd (Submit (\<lambda>s. s) (\<lambda>s. s) (apiGet []))) = Some V"
    "\<forall>k. map_index V k = map_index [] k
        @ (if skipDefaultQueries (apiGet []) then []
           else gomap_index (DefaultQueries (client (apiGet []))) k)"
    using T [where r = "apiGet []" and ?q0.0 = "[]", THEN conjunct2, THEN conjunct2,
        THEN conjunct1, THEN mp, OF e1]
    by blast
  have 3: "\<exists>W. queries (snd (Submit (\<lambda>s. s) (\<lambda>s. s) (apiGet []))) = Some W
      \<and> map_index W ''a'' = [''2'']"
    using V(1) V(2) [THEN spec, of "''a''"] g(5) by simp
  have p1: "path (apiGet ''/%zz'') \<noteq> []
      \<and> url_Parse (strings_TrimPrefix (path (apiGet ''/%zz'')) ''/'') = Inl ?E"
    by code_simp
  have p2: "Submit (\<lambda>s. s) (\<lambda>s. s) (apiGet ''/%zz'') = (Inl ?E, apiGet ''/%zz'')"
    using T [where r = "apiGet ''/%zz''" and err = ?E, THEN conjunct2, THEN conjunct1, THEN mp,
        OF p1] .
  have 4: "fst (Submit (\<lambda>s. s) (\<lambda>s. s) (apiGet ''/%zz'')) = Inl ?E"
    "queries (snd (Submit (\<lambda>s. s) (\<lambda>s. s) (apiGet ''/%zz''))) = Some []"
    unfolding p2 by (simp_all add: apiGet_def NewHttpRequest_def)
  have b1: "fst (Submit_url ?b) = Inr ?url"
    "http_NewRequest (req_method ?b) ?url (req_body ?b) = Inl (InvalidMethodError ''B D'')"
    "req_headers ?b = Some []"
    by code_simp+
  have b2: "(\<exists>e. fst (Submit_url ?b) = Inl e)
        \<or> (\<exists>url e. fst (Submit_url ?b) = Inr url
              \<and> http_NewRequest (req_method ?b) url (req_body ?b) = Inl e)"
    using b1(1,2) by blast
  have 5: "req_headers (snd (Submit (\<lambda>s. s) (\<lambda>s. s) ?b)) = Some []"
    using T [where r = ?b, THEN conjunct2, THEN conjunct2, THEN conjunct2, THEN conjunct2,
        THEN conjunct2, THEN conjunct1, THEN mp, OF b2] b1(3)
    by simp
  have n1: "queries (request_Queries (apiGet []) None) = None"
    "req_headers (request_Headers (apiGet []) None) = None"
    by (simp_all add: request_Queries_def request_Headers_def)
  have 6: "queries (snd (Submit (\<lambda>s. s) (\<lambda>s. s) (request_Queries (apiGet []) None))) = None"
    using T [where r = "request_Queries (apiGet []) None", THEN conjunct2, THEN conjunct2,
        THEN conjunct2, THEN conjunct2, THEN conjunct1, THEN mp, OF n1(1)] .
  have 7: "req_headers (snd (Submit (\<lambda>s. s) (\<lambda>s. s) (request_Headers (apiGet []) None))) = None"
    using T [where r = "request_Headers (apiGet []) None", THEN conjunct2, THEN conjunct2,
        THEN conjunct2, THEN conjunct2, THEN conjunct2, THEN conjunct2, THEN conjunct2,
        THEN conjunct1, THEN mp, OF n1(2)] .
  have 8: "effectiveMaxRedirects (snd (Submit (\<lambda>s. s) (\<lambda>s. s) ?r)) = 10"
    using T [where r = ?r, THEN conjunct2, THEN conjunct2, THEN conjunct2, THEN conjunct2,
        THEN conjunct2, THEN conjunct2, THEN conjunct2, THEN conjunct2, THEN conjunct1] g(4)
    by simp
  have s1: "effectiveMaxRedirects ?h = int 2
      \<and> fst (Submit_request (snd (Submit (\<lambda>s. s) (\<lambda>s. s) ?h))) = Inr (hopOut ''http://h.example/0'')"
    by code_simp
  have s2: "redirectChain (GetTransport (client ?h)) (effectiveTimeout ?h)
      (hopOut ''http://h.example/0'') 2 okResponse"
    by code_simp
  have 9: "fst (Submit (\<lambda>s. s) (\<lambda>s. s) (snd (Submit (\<lambda>s. s) (\<lambda>s. s) ?h)))
       = newHttpResponse (\<lambda>s. s) okResponse"
    using T [where r = ?h and N = 2 and ?req2.0 = "hopOut ''http://h.example/0''"
        and resp = okResponse, THEN conjunct2, THEN conjunct2, THEN conjunct2, THEN conjunct2,
        THEN conjunct2, THEN conjunct2, THEN conjunct2, THEN conjunct2, THEN conjunct2, THEN mp,
        OF s1, THEN conjunct1, THEN mp, OF s2, THEN conjunct1] .
  have t1: "effectiveMaxRedirects ?h1 = int 1
      \<and> fst (Submit_request (snd (Submit (\<lambda>s. s) (\<lambda>s. s) ?h1))) = Inr (hopOut ''http://h.example/0'')"
    by code_simp
  have t2: "redirectChain (GetTransport (client ?h1)) (effectiveTimeout ?h1)
      (hopOut ''http://h.example/0'') (Suc 1) okResponse"
    by code_simp
  have 10: "\<exists>e. fst (Submit (\<lambda>s. s) (\<lambda>s. s) (snd (Submit (\<lambda>s. s) (\<lambda>s. s) ?h1))) = Inl e
        \<and> errors_Is e TooManyRedirects"
    using T [where r = ?h1 and N = 1 and ?req2.0 = "hopOut ''http://h.example/0''"
        and resp = okResponse, THEN conjunct2, THEN conjunct2, THEN conjunct2, THEN conjunct2,
        THEN conjunct2, THEN conjunct2, THEN conjunct2, THEN conjunct2, THEN conjunct2, THEN mp,
        OF t1, THEN conjunct2, THEN mp, OF t2, THEN conjunct1] .
  show ?thesis
    by (intro conjI) (rule 1 2 3 4 5 6 7 8 9 10)+
qed

section \<open>Normalizing a host twice\<close>

lemma setPath_Scheme: "setPath u p = Inr u' \<Longrightarrow> Scheme u' = Scheme u \<and> Host u' = Host u"
  by (auto simp: setPath_def split: sum.splits)

lemma setFragment_Scheme: "setFragment u f = Inr u' \<Longrightarrow> Scheme u' = Scheme u \<and> Host u' = Host u"
  by (auto simp: setFragment_def split: sum.splits)

lemma parse_Scheme:
  assumes "parse x = Inr u" and "Scheme u \<noteq> []"
  shows "\<exists>s r. getScheme x = Inr (s, r) \<and> Scheme u = map toLowerASCII s"
proof -
  have nostar: "\<not> stringContainsCTLByte x" "x \<noteq> ''*''"
    using assms by (auto simp: parse_def emptyURL_def split: if_splits)
  obtain s r where g: "getScheme x = Inr (s, r)"
    using assms nostar by (cases "getScheme x") (auto simp: parse_def)
  have "Scheme u = map toLowerASCII s"
    using assms(1) nostar g
    by (auto simp: parse_def Let_def emptyURL_def split: if_splits sum.splits prod.splits
          dest!: setPath_Scheme)
  then show ?thesis using g by blast
qed

subsection \<open>Bytes\<close>

lemma lower_not_upper: "isLowerASCII c \<Longrightarrow> \<not> isUpperASCII c"
  by (simp add: isLowerASCII_def isUpperASCII_def less_eq_char_def)

lemma digit_not_letter: "isDigit c \<Longrightarrow> \<not> isUpperASCII c \<and> \<not> isLowerASCII c"
  by (simp add: isLowerASCII_def isUpperASCII_def isDigit_def less_eq_char_def)

lemma toLower_letter: "isLetter c \<Longrightarrow> isLowerASCII (toLowerASCII c)"
  by (auto simp: isLetter_def toLowerASCII_def isLowerASCII_def isUpperASCII_def less_eq_char_def)

lemma toLower_schemeByte: "schemeByte c \<Longrightarrow> toLowerASCII c = c"
  by (auto simp: schemeByte_def toLowerASCII_def isLowerASCII_def isUpperASCII_def isDigit_def
        less_eq_char_def)

lemma schemeByte_facts:
  assumes "schemeByte c"
  shows "c \<noteq> CHR '':''" "c \<noteq> CHR ''#''" "c \<noteq> CHR ''?''" "c \<noteq> CHR ''/''" "c \<noteq> CHR ''*''"
    "\<not> (c < CHR '' '' \<or> c = CHR 0x7F)" "isASCII c" "\<not> asciiSpace c"
    "isLetter c \<or> isDigit c \<or> c = CHR ''+'' \<or> c = CHR ''-'' \<or> c = CHR ''.''"
  using assms
  by (auto simp: schemeByte_def isLowerASCII_def isDigit_def isASCII_def asciiSpace_def
        isLetter_def less_eq_char_def less_char_def)

subsection \<open>Schemes\<close>

lemma getScheme_loop_scheme:
  assumes "getScheme_loop raw seen rest = Inr (s, r)" and "s \<noteq> []"
    and "seen = [] \<or> (isLetter (hd seen) \<and> list_all (\<lambda>c. isLetter c \<or> schemeByte c) seen)"
  shows "isLetter (hd s) \<and> list_all (\<lambda>c. isLetter c \<or> schemeByte c) s"
  using assms
proof (induction rest arbitrary: seen)
  case Nil
  then show ?case by simp
next
  case (Cons c rest)
  show ?case
  proof (cases "isLetter c")
    case True
    have "getScheme_loop raw (seen @ [c]) rest = Inr (s, r)"
      using Cons.prems(1) True by simp
    moreover have "seen @ [c] = [] \<or> (isLetter (hd (seen @ [c]))
        \<and> list_all (\<lambda>c. isLetter c \<or> schemeByte c) (seen @ [c]))"
      using Cons.prems(3) True by (cases seen) auto
    ultimately show ?thesis using Cons.IH Cons.prems(2) by blast
  next
    case False
    show ?thesis
    proof (cases "isDigit c \<or> c = CHR ''+'' \<or> c = CHR ''-'' \<or> c = CHR ''.''")
      case True
      then have sb: "schemeByte c" by (auto simp: schemeByte_def)
      have ne: "seen \<noteq> []"
        using Cons.prems(1,2) False True by (auto split: if_splits)
      have "getScheme_loop raw (seen @ [c]) rest = Inr (s, r)"
        using Cons.prems(1) False True ne by (auto split: if_splits)
      moreover have "seen @ [c] = [] \<or> (isLetter (hd (seen @ [c]))
          \<and> list_all (\<lambda>c. isLetter c \<or> schemeByte c) (seen @ [c]))"
        using Cons.prems(3) ne sb by (cases seen) auto
      ultimately show ?thesis using Cons.IH Cons.prems(2) by blast
    next
      case nd: False
      then have "s = seen"
        using Cons.prems(1,2) False by (auto split: if_splits)
      then show ?thesis using Cons.prems(2,3) by auto
    qed
  qed
qed

lemma lowered_isScheme:
  assumes "isLetter (hd s) \<and> list_all (\<lambda>c. isLetter c \<or> schemeByte c) s" and "s \<noteq> []"
  shows "isScheme (map toLowerASCII s)"
proof -
  obtain c cs where s: "s = c # cs" using assms(2) by (cases s) auto
  have l: "\<And>d. isLetter d \<or> schemeByte d \<Longrightarrow> schemeByte (toLowerASCII d)"
  proof -
    fix d assume "isLetter d \<or> schemeByte d"
    then show "schemeByte (toLowerASCII d)"
    proof
      assume "isLetter d"
      then have "isLowerASCII (toLowerASCII d)" by (rule toLower_letter)
      then show ?thesis by (simp add: schemeByte_def)
    next
      assume b: "schemeByte d"
      then have "toLowerASCII d = d" by (rule toLower_schemeByte)
      then show ?thesis using b by simp
    qed
  qed
  have "\<forall>d \<in> set cs. schemeByte (toLowerASCII d)"
    using assms(1) s l by (simp add: list_all_iff)
  then have "list_all schemeByte (map toLowerASCII cs)"
    by (simp add: list_all_iff)
  moreover have "isLowerASCII (toLowerASCII c)"
    using assms(1) s toLower_letter by simp
  ultimately show ?thesis
    using s by (simp add: isScheme_def)
qed

lemma getScheme_loop_accepts:
  assumes "list_all schemeByte cs" and "seen \<noteq> []"
  shows "getScheme_loop raw seen (cs @ CHR '':'' # r) = Inr (seen @ cs, r)"
  using assms
proof (induction cs arbitrary: seen)
  case Nil
  then show ?case by (simp add: isLetter_def isDigit_def isLowerASCII_def isUpperASCII_def)
next
  case (Cons c cs)
  have "getScheme_loop raw seen ((c # cs) @ CHR '':'' # r)
      = getScheme_loop raw (seen @ [c]) (cs @ CHR '':'' # r)"
    using Cons.prems schemeByte_facts(9) [of c] by auto
  then show ?case using Cons.IH [of "seen @ [c]"] Cons.prems by simp
qed

lemma getScheme_isScheme:
  assumes "isScheme s"
  shows "getScheme (s @ CHR '':'' # r) = Inr (s, r)"
proof -
  obtain c cs where s: "s = c # cs" "isLowerASCII c" "list_all schemeByte cs"
    using assms by (auto simp: isScheme_def split: list.splits)
  have "getScheme_loop (s @ CHR '':'' # r) [] (s @ CHR '':'' # r)
      = getScheme_loop (s @ CHR '':'' # r) [c] (cs @ CHR '':'' # r)"
    using s by (simp add: isLetter_def)
  then show ?thesis
    using getScheme_loop_accepts [OF s(3), of "[c]"] s(1) by (simp add: getScheme_def)
qed

lemma isScheme_lower: "isScheme s \<Longrightarrow> map toLowerASCII s = s"
proof -
  assume a: "isScheme s"
  then obtain c cs where s: "s = c # cs" "isLowerASCII c" "list_all schemeByte cs"
    by (auto simp: isScheme_def split: list.splits)
  have "list_all schemeByte s" using s by (simp add: schemeByte_def)
  then have "\<forall>d \<in> set s. toLowerASCII d = d"
    using toLower_schemeByte by (simp add: list_all_iff)
  then show ?thesis by (simp add: map_idI)
qed

lemma isScheme_bytes: "isScheme s \<Longrightarrow> s \<noteq> [] \<and> list_all schemeByte s"
  by (auto simp: isScheme_def schemeByte_def split: list.splits)

subsection \<open>Searching a string for a byte it does not have\<close>

lemma Index_absent: "c \<notin> set s \<Longrightarrow> strings_Index s [c] = None"
  by (induction s) (auto simp: strings_HasPrefix_def)

lemma LastIndex_absent: "c \<notin> set s \<Longrightarrow> strings_LastIndex s [c] = None"
  by (induction s) (auto simp: strings_HasPrefix_def)

lemma Cut_absent: "c \<notin> set s \<Longrightarrow> Cut_before s [c] = s \<and> Cut_after s [c] = []"
  by (simp add: Cut_before_def Cut_after_def Index_absent)

lemma HasSuffix_absent: "c \<notin> set s \<Longrightarrow> \<not> strings_HasSuffix s [c]"
proof
  assume a: "c \<notin> set s" and h: "strings_HasSuffix s [c]"
  then have "drop (length s - 1) s = [c]" by (simp add: strings_HasSuffix_def)
  then have "c \<in> set (drop (length s - 1) s)" by simp
  then show False using a by (meson in_set_dropD)
qed

subsection \<open>\<open>TrimSpace\<close> on a string without space at its ends\<close>

lemma leadingSpace_ascii:
  assumes "isASCII c" and "\<not> asciiSpace c"
  shows "leadingSpace (c # s) = 0"
proof -
  have "of_char c < (128::nat)" using assms(1) by (simp add: isASCII_def)
  then have "c \<noteq> CHR 0xC2" "c \<noteq> CHR 0xE1" "c \<noteq> CHR 0xE2" "c \<noteq> CHR 0xE3"
    by auto
  then have "find (\<lambda>w. strings_HasPrefix (c # s) w) unicodeSpaces = None"
    by (simp add: unicodeSpaces_def strings_HasPrefix_def)
  then show ?thesis using assms(2) by (simp add: leadingSpace_def)
qed

lemma HasSuffix_last:
  assumes "strings_HasSuffix s w" and "w \<noteq> []"
  shows "last s = last w"
proof -
  have "drop (length s - length w) s = w" using assms(1) by (simp add: strings_HasSuffix_def)
  then have "s = take (length s - length w) s @ w" by (metis append_take_drop_id)
  then show ?thesis using assms(2) by (metis last_appendR)
qed

lemma trailingSpace_ascii:
  assumes "s \<noteq> []" and "isASCII (last s)" and "\<not> asciiSpace (last s)"
  shows "trailingSpace s = 0"
proof -
  have n: "of_char (last s) < (128::nat)" using assms(2) by (simp add: isASCII_def)
  have "\<forall>w \<in> set unicodeSpaces. \<not> strings_HasSuffix s w"
  proof
    fix w assume w: "w \<in> set unicodeSpaces"
    then have "w \<noteq> [] \<and> (128::nat) \<le> of_char (last w)"
      by (auto simp: unicodeSpaces_def)
    then show "\<not> strings_HasSuffix s w"
      using HasSuffix_last [of s w] n by auto
  qed
  then have "find (\<lambda>w. strings_HasSuffix s w) unicodeSpaces = None"
    by (simp add: find_None_iff)
  then show ?thesis using assms by (simp add: trailingSpace_def)
qed

lemma TrimSpace_id:
  assumes "s \<noteq> []" and "isASCII (hd s)" and "\<not> asciiSpace (hd s)"
    and "isASCII (last s)" and "\<not> asciiSpace (last s)"
  shows "strings_TrimSpace s = s"
proof -
  obtain c cs where s: "s = c # cs" using assms(1) by (cases s) auto
  have l: "leadingSpace s = 0" using leadingSpace_ascii [of c cs] assms(2,3) s by simp
  have t: "trailingSpace s = 0" using trailingSpace_ascii [OF assms(1,4,5)] .
  have "trimLeftSpace s = s" using l by (subst trimLeftSpace.simps) simp
  moreover have "trimRightSpace s = s" using t by (subst trimRightSpace.simps) simp
  ultimately show ?thesis by (simp add: strings_TrimSpace_def)
qed


subsection \<open>The bytes of a parsed host\<close>

lemma not_hostChar:
  "\<not> hostChar CHR ''#''" "\<not> hostChar CHR ''?''" "\<not> hostChar CHR ''/''" "\<not> hostChar CHR ''@''"
  "\<not> hostChar CHR ''%''" "\<not> hostChar CHR 0x7F"
  by code_simp+

lemma ctl_not_hostChar: "list_all (\<lambda>c. \<not> hostChar c) (map char_of [0..<32::nat])"
  by code_simp

lemma hostChar_facts:
  assumes "hostChar c"
  shows "c \<noteq> CHR ''#''" "c \<noteq> CHR ''?''" "c \<noteq> CHR ''/''" "c \<noteq> CHR ''@''" "c \<noteq> CHR ''%''"
    "\<not> (c < CHR '' '' \<or> c = CHR 0x7F)"
proof -
  show "c \<noteq> CHR ''#''" using assms not_hostChar(1) by blast
  show "c \<noteq> CHR ''?''" using assms not_hostChar(2) by blast
  show "c \<noteq> CHR ''/''" using assms not_hostChar(3) by blast
  show "c \<noteq> CHR ''@''" using assms not_hostChar(4) by blast
  show "c \<noteq> CHR ''%''" using assms not_hostChar(5) by blast
  have "\<not> c < CHR '' ''"
  proof
    assume "c < CHR '' ''"
    then have "(of_char c :: nat) < 32" by (simp add: less_char_def)
    then have "of_char c \<in> {0..<32::nat}" by simp
    then have "char_of (of_char c :: nat) \<in> char_of ` {0..<32::nat}" by (rule imageI)
    then have "c \<in> set (map char_of [0..<32::nat])" by (simp only: set_map set_upt char_of_char)
    then show False using ctl_not_hostChar assms by (simp only: list_all_iff)
  qed
  then show "\<not> (c < CHR '' '' \<or> c = CHR 0x7F)" using assms not_hostChar(6) by blast
qed

lemma unhex_le: "unhex c \<le> 15"
  by (auto simp: unhex_def isDigit_def less_eq_char_def)

lemma decoded_high:
  assumes "8 \<le> unhex h1"
  shows "\<not> isASCII (char_of (unhex h1 * 16 + unhex h2))"
proof -
  have a: "unhex h1 \<le> 15" "unhex h2 \<le> 15" by (rule unhex_le)+
  have "128 \<le> unhex h1 * 16 + unhex h2" using assms by arith
  moreover have "unhex h1 * 16 + unhex h2 < 256" using a by arith
  ultimately show ?thesis by (simp add: isASCII_def)
qed

lemma decoded_25: "[c, h1, h2] = ''%25'' \<Longrightarrow> char_of (unhex h1 * 16 + unhex h2) = CHR ''%''"
proof -
  assume a: "[c, h1, h2] = ''%25''"
  have "char_of (unhex CHR ''2'' * 16 + unhex CHR ''5'') = CHR ''%''" by code_simp
  then show ?thesis using a by simp
qed

lemma plus_hostChar: "hostChar CHR ''+''"
  by code_simp

lemma decode_bytes:
  "unescape_check t encodeHost = None \<Longrightarrow> d \<in> set (unescape_decode t encodeHost) \<Longrightarrow>
     (hostChar d \<or> d = CHR ''%'') \<and> (d \<in> set t \<or> d = CHR ''%'' \<or> \<not> isASCII d)"
proof (induction "length t" arbitrary: t rule: less_induct)
  case less
  show ?case
  proof (cases t)
    case Nil
    then show ?thesis using less.prems by simp
  next
    case (Cons c s)
    show ?thesis
    proof (cases "c = CHR ''%''")
      case True
      then obtain h1 h2 s' where s: "s = h1 # h2 # s'"
        using less.prems(1) Cons by (cases s; cases "tl s") auto
      have ok: "unhex h1 \<ge> 8 \<or> [c, h1, h2] = ''%25''"
        and rest: "unescape_check s' encodeHost = None"
        using less.prems(1) True Cons s by (auto split: if_splits)
      have hd: "char_of (unhex h1 * 16 + unhex h2) = CHR ''%''
          \<or> \<not> isASCII (char_of (unhex h1 * 16 + unhex h2))"
        using ok decoded_high decoded_25 by blast
      consider (first) "d = char_of (unhex h1 * 16 + unhex h2)"
        | (later) "d \<in> set (unescape_decode s' encodeHost)"
        using less.prems(2) True Cons s by auto
      then show ?thesis
      proof cases
        case first
        then show ?thesis using hd by (auto simp: hostChar_def)
      next
        case later
        have "length s' < length t" using Cons s by simp
        then show ?thesis using less.hyps [OF _ rest later] Cons s by auto
      qed
    next
      case False
      have l: "length s < length t" using Cons by simp
      show ?thesis
      proof (cases "c = CHR ''+''")
        case True
        have rest: "unescape_check s encodeHost = None" using less.prems(1) True Cons by simp
        consider (first) "d = c" | (later) "d \<in> set (unescape_decode s encodeHost)"
          using less.prems(2) True Cons by auto
        then show ?thesis
        proof cases
          case first
          then show ?thesis using True plus_hostChar Cons by simp
        next
          case later
          then show ?thesis using less.hyps [OF l rest later] Cons by auto
        qed
      next
        case plus: False
        have rest: "unescape_check s encodeHost = None" and hc: "hostChar c"
          using less.prems(1) False plus Cons by (auto simp: hostChar_def split: if_splits)
        consider (first) "d = c" | (later) "d \<in> set (unescape_decode s encodeHost)"
          using less.prems(2) False plus Cons by auto
        then show ?thesis
        proof cases
          case first
          then show ?thesis using hc Cons by simp
        next
          case later
          then show ?thesis using less.hyps [OF l rest later] Cons by auto
        qed
      qed
    qed
  qed
qed

lemma unescape_hostChar:
  assumes "list_all hostChar H"
  shows "unescape_check H encodeHost = None \<and> unescape_decode H encodeHost = H"
  using assms
proof (induction H)
  case Nil
  then show ?case by simp
next
  case (Cons c cs)
  have c: "hostChar c" using Cons.prems by simp
  then have "c \<noteq> CHR ''%''" by (rule hostChar_facts(5))
  then show ?case using Cons c by (auto simp: hostChar_def)
qed

subsection \<open>Decoding around a byte that is no part of an escape\<close>

lemma decode_split:
  "unescape_check (a @ c # b) m = None \<Longrightarrow> \<not> ishex c \<Longrightarrow> c \<noteq> CHR ''%'' \<Longrightarrow>
     unescape_decode (a @ c # b) m = unescape_decode a m @ unescape_decode (c # b) m"
proof (induction "length a" arbitrary: a rule: less_induct)
  case less
  show ?case
  proof (cases a)
    case Nil
    then show ?thesis by simp
  next
    case (Cons x s)
    show ?thesis
    proof (cases "x = CHR ''%''")
      case True
      have "\<exists>h1 h2 s'. s = h1 # h2 # s'"
      proof (cases s)
        case Nil
        then show ?thesis using less.prems True Cons by (cases b) (auto split: if_splits)
      next
        case (Cons h1 s1)
        show ?thesis
        proof (cases s1)
          case Nil
          then show ?thesis using less.prems True \<open>a = x # s\<close> Cons by (auto split: if_splits)
        next
          case (Cons h2 s')
          then show ?thesis using \<open>s = h1 # s1\<close> by simp
        qed
      qed
      then obtain h1 h2 s' where s: "s = h1 # h2 # s'" by blast
      have rest: "unescape_check (s' @ c # b) m = None"
        using less.prems(1) True Cons s by (auto split: if_splits)
      have "length s' < length a" using Cons s by simp
      then show ?thesis using less.hyps [OF _ rest less.prems(2,3)] True Cons s by simp
    next
      case False
      have rest: "unescape_check (s @ c # b) m = None"
        using less.prems(1) False Cons by (auto split: if_splits)
      have "length s < length a" using Cons by simp
      then show ?thesis using less.hyps [OF _ rest less.prems(2,3)] False Cons by simp
    qed
  qed
qed

lemma decode_digits: "list_all isDigit p \<Longrightarrow> unescape_decode p m = p"
proof (induction p)
  case Nil
  then show ?case by simp
next
  case (Cons c p)
  then have "isDigit c" by simp
  then have "c \<noteq> CHR ''%''" "c \<noteq> CHR ''+''" by (auto simp: isDigit_def less_eq_char_def)
  then show ?case using Cons by simp
qed

lemma decode_port:
  assumes "validOptionalPort p"
  shows "unescape_decode p encodeHost = p"
proof (cases p)
  case Nil
  then show ?thesis by simp
next
  case (Cons c ds)
  then have "c = CHR '':''" "list_all isDigit ds"
    using assms by (auto simp: validOptionalPort_def split: if_splits)
  then show ?thesis using Cons decode_digits by simp
qed

lemma port_absent:
  assumes "validOptionalPort (c # p)"
  shows "CHR '':'' \<notin> set p" "CHR '']'' \<notin> set p"
proof -
  have "list_all isDigit p" using assms by (auto simp: validOptionalPort_def split: if_splits)
  then have d: "\<And>d. d \<in> set p \<Longrightarrow> isDigit d" by (simp add: list_all_iff)
  have "\<not> isDigit CHR '':''" "\<not> isDigit CHR '']''" by code_simp+
  then show "CHR '':'' \<notin> set p" "CHR '']'' \<notin> set p"
    using d by blast+
qed

subsection \<open>The last index of a byte\<close>

lemma LastIndex_Some:
  "strings_LastIndex t [c] = Some i \<Longrightarrow> t = take i t @ c # drop (Suc i) t"
proof (induction t arbitrary: i)
  case Nil
  then show ?case by simp
next
  case (Cons x t)
  show ?case
  proof (cases "strings_LastIndex t [c]")
    case None
    then have "i = 0" "x = c"
      using Cons.prems by (auto simp: strings_HasPrefix_def split: if_splits)
    then show ?thesis by simp
  next
    case (Some j)
    then have i: "i = Suc j" using Cons.prems by simp
    show ?thesis using Cons.IH [OF Some] i by simp
  qed
qed

lemma LastIndex_append:
  "c \<notin> set p \<Longrightarrow> strings_LastIndex (a @ c # p) [c] = Some (length a)"
proof (induction a)
  case Nil
  then show ?case using LastIndex_absent [of c p] by (simp add: strings_HasPrefix_def)
next
  case (Cons x a)
  then show ?case by simp
qed

lemma LastIndex_None: "strings_LastIndex t [c] = None \<Longrightarrow> c \<notin> set t"
proof (induction t)
  case Nil
  then show ?case by simp
next
  case (Cons x t)
  then show ?case by (auto simp: strings_HasPrefix_def split: option.splits if_splits)
qed

lemma Index_no_percent: "CHR ''%'' \<notin> set s \<Longrightarrow> strings_Index s ''%25'' = None"
  by (induction s) (auto simp: strings_HasPrefix_def)

lemma Index_Some_percent: "strings_Index s ''%25'' = Some z \<Longrightarrow> \<exists>r. drop z s = ''%25'' @ r"
proof (induction s arbitrary: z)
  case Nil
  then show ?case by simp
next
  case (Cons x s)
  show ?case
  proof (cases "strings_HasPrefix (x # s) ''%25''")
    case True
    then have "z = 0" using Cons.prems by simp
    moreover have "x # s = ''%25'' @ drop 3 (x # s)"
      using True by (metis append_take_drop_id strings_HasPrefix_def length_Cons list.size(3)
          numeral_3_eq_3)
    ultimately show ?thesis by auto
  next
    case False
    then obtain j where j: "strings_Index s ''%25'' = Some j" "z = Suc j"
      using Cons.prems by (auto split: option.splits)
    then show ?thesis using Cons.IH [OF j(1)] by simp
  qed
qed


subsection \<open>A host without \<open>%\<close> parses as itself\<close>

lemma decode_hd_bracket:
  assumes "unescape_check t encodeHost = None"
    and "strings_HasPrefix (unescape_decode t encodeHost) ''[''"
  shows "strings_HasPrefix t ''[''"
proof (cases t)
  case Nil
  then show ?thesis using assms(2) by (simp add: strings_HasPrefix_def)
next
  case (Cons c s)
  show ?thesis
  proof (cases "c = CHR ''%''")
    case True
    then obtain h1 h2 s' where s: "s = h1 # h2 # s'"
      using assms(1) Cons by (cases s; cases "tl s") auto
    have ok: "unhex h1 \<ge> 8 \<or> [c, h1, h2] = ''%25''"
      using assms(1) True Cons s by (auto split: if_splits)
    have "char_of (unhex h1 * 16 + unhex h2) = CHR ''%''
        \<or> \<not> isASCII (char_of (unhex h1 * 16 + unhex h2))"
      using ok decoded_high decoded_25 by blast
    moreover have "char_of (unhex h1 * 16 + unhex h2) = CHR ''[''"
      using assms(2) True Cons s by (simp add: strings_HasPrefix_def)
    moreover have "isASCII CHR ''[''" by code_simp
    ultimately show ?thesis by auto
  next
    case False
    then show ?thesis using assms(2) Cons by (auto simp: strings_HasPrefix_def split: if_splits)
  qed
qed

lemma unescape_stable:
  assumes "unescape t encodeHost = Inr H" and "CHR ''%'' \<notin> set H"
  shows "unescape_check t encodeHost = None" and "H = unescape_decode t encodeHost"
    and "list_all hostChar H" and "unescape H encodeHost = Inr H"
    and "\<And>d. d \<in> set H \<Longrightarrow> d \<in> set t \<or> \<not> isASCII d"
proof -
  show c: "unescape_check t encodeHost = None" and h: "H = unescape_decode t encodeHost"
    using assms(1) by (auto simp: unescape_def split: option.splits)
  have b: "\<And>d. d \<in> set H \<Longrightarrow> hostChar d \<and> (d \<in> set t \<or> \<not> isASCII d)"
    using decode_bytes [OF c] assms(2) unfolding h by blast
  then show a: "list_all hostChar H" by (simp add: list_all_iff)
  show "unescape H encodeHost = Inr H" using unescape_hostChar [OF a] by (simp add: unescape_def)
  show "\<And>d. d \<in> set H \<Longrightarrow> d \<in> set t \<or> \<not> isASCII d" using b by blast
qed

lemma parseHost_stable:
  assumes "parseHost t = Inr H" and "CHR ''%'' \<notin> set H"
  shows "parseHost H = Inr H \<and> list_all hostChar H"
proof (cases "strings_HasPrefix t ''[''")
  case True
  obtain i where i: "strings_LastIndex t '']'' = Some i"
    using assms(1) True by (cases "strings_LastIndex t '']''") (simp_all add: parseHost_def)
  have vp: "validOptionalPort (drop (i + 1) t)"
    using assms(1) True i by (simp add: parseHost_def split: if_splits)
  have z: "strings_Index (take i t) ''%25'' = None"
  proof (rule ccontr)
    assume "strings_Index (take i t) ''%25'' \<noteq> None"
    then obtain z where z: "strings_Index (take i t) ''%25'' = Some z" by auto
    obtain r where r: "drop z (take i t) = ''%25'' @ r" using Index_Some_percent [OF z] by blast
    obtain h1 h2 h3 where h: "unescape (drop z (take i t)) encodeZone = Inr h2" "H = h1 @ h2 @ h3"
      using assms(1) True i vp z by (auto simp: parseHost_def split: sum.splits)
    have "h2 = unescape_decode (''%25'' @ r) encodeZone"
      using h(1) r by (auto simp: unescape_def split: option.splits)
    then have "CHR ''%'' \<in> set h2" using decoded_25 [of "CHR ''%''" "CHR ''2''" "CHR ''5''"] by simp
    then show False using h(2) assms(2) by simp
  qed
  have u: "unescape t encodeHost = Inr H"
    using assms(1) True i vp z by (simp add: parseHost_def)
  note s = unescape_stable [OF u assms(2)]
  define p where "p = drop (Suc i) t"
  have t: "t = take i t @ CHR '']'' # p" using LastIndex_Some [OF i] by (simp add: p_def)
  have vp': "validOptionalPort p" using vp by (simp add: p_def)
  have np: "CHR '']'' \<notin> set p"
  proof (cases p)
    case Nil
    then show ?thesis by simp
  next
    case (Cons c ds)
    then have "c = CHR '':''" using vp' by (auto simp: validOptionalPort_def split: if_splits)
    then show ?thesis using port_absent(2) [of c ds] vp' Cons by simp
  qed
  have nh: "\<not> ishex CHR '']''" by code_simp
  have ck: "unescape_check (take i t @ CHR '']'' # p) encodeHost = None" using s(1) t by simp
  have "unescape_decode (take i t @ CHR '']'' # p) encodeHost
      = unescape_decode (take i t) encodeHost @ unescape_decode (CHR '']'' # p) encodeHost"
    using decode_split [OF ck nh] by simp
  then have H: "H = unescape_decode (take i t) encodeHost @ CHR '']'' # p"
    using s(2) t decode_port [OF vp'] by simp
  let ?A = "unescape_decode (take i t) encodeHost"
  have li: "strings_LastIndex H '']'' = Some (length ?A)"
    unfolding H using LastIndex_append [OF np] .
  have dp: "drop (length ?A + 1) H = p" unfolding H by simp
  have zi: "strings_Index (take (length ?A) H) ''%25'' = None"
  proof -
    have "CHR ''%'' \<notin> set (take (length ?A) H)" using assms(2) by (meson in_set_takeD)
    then show ?thesis by (rule Index_no_percent)
  qed
  obtain t' where "t = CHR ''['' # t'"
    using True by (cases t) (auto simp: strings_HasPrefix_def)
  then have br: "strings_HasPrefix H ''[''" using s(2) by (simp add: strings_HasPrefix_def)
  have "parseHost H = Inr H"
    using br li dp vp' zi s(4) by (simp add: parseHost_def)
  then show ?thesis using s(3) by simp
next
  case False
  have u: "unescape t encodeHost = Inr H"
    using assms(1) False by (auto simp: parseHost_def split: option.splits if_splits)
  note s = unescape_stable [OF u assms(2)]
  have br: "\<not> strings_HasPrefix H ''[''"
    using decode_hd_bracket [OF s(1)] False s(2) by blast
  show ?thesis
  proof (cases "strings_LastIndex t '':''")
    case None
    then have "CHR '':'' \<notin> set t" by (rule LastIndex_None)
    moreover have "isASCII CHR '':''" by code_simp
    ultimately have "CHR '':'' \<notin> set H" using s(5) by blast
    then have "strings_LastIndex H '':'' = None" by (rule LastIndex_absent)
    then have "parseHost H = Inr H" using br s(4) by (simp add: parseHost_def)
    then show ?thesis using s(3) by simp
  next
    case (Some i)
    have vp: "validOptionalPort (drop i t)"
      using assms(1) False Some by (simp add: parseHost_def split: if_splits)
    define p where "p = drop (Suc i) t"
    have t: "t = take i t @ CHR '':'' # p" using LastIndex_Some [OF Some] by (simp add: p_def)
    have di: "drop i t = CHR '':'' # p"
      using t by (metis append_eq_conv_conj append_take_drop_id)
    have vp': "validOptionalPort (CHR '':'' # p)" using vp di by simp
    then have dg: "list_all isDigit p" by (simp add: validOptionalPort_def)
    have np: "CHR '':'' \<notin> set p" using port_absent(1) [OF vp'] .
    have nh: "\<not> ishex CHR '':''" by code_simp
    have ck: "unescape_check (take i t @ CHR '':'' # p) encodeHost = None" using s(1) t by simp
    have "unescape_decode (take i t @ CHR '':'' # p) encodeHost
        = unescape_decode (take i t) encodeHost @ unescape_decode (CHR '':'' # p) encodeHost"
      using decode_split [OF ck nh] by simp
    then have H: "H = unescape_decode (take i t) encodeHost @ CHR '':'' # p"
      using s(2) t decode_digits [OF dg] by simp
    let ?A = "unescape_decode (take i t) encodeHost"
    have li: "strings_LastIndex H '':'' = Some (length ?A)"
      unfolding H using LastIndex_append [OF np] .
    have dp: "drop (length ?A) H = CHR '':'' # p" unfolding H by simp
    have "parseHost H = Inr H"
      using br li dp vp' s(4) by (simp add: parseHost_def)
    then show ?thesis using s(3) by simp
  qed
qed


subsection \<open>The scheme of a parsed URL\<close>

lemma url_Parse_Scheme:
  assumes "url_Parse x = Inr u" and "Scheme u \<noteq> []"
  shows "isScheme (Scheme u)"
proof -
  obtain v where v: "parse (Cut_before x ''#'') = Inr v" and sv: "Scheme v = Scheme u"
    using assms(1) setFragment_Scheme
    by (auto simp: url_Parse_def Let_def split: sum.splits if_splits)
  obtain s r where g: "getScheme (Cut_before x ''#'') = Inr (s, r)"
      and l: "Scheme v = map toLowerASCII s"
    using parse_Scheme [OF v] assms(2) sv by auto
  have ne: "s \<noteq> []" using l sv assms(2) by auto
  have "isLetter (hd s) \<and> list_all (\<lambda>c. isLetter c \<or> schemeByte c) s"
    using getScheme_loop_scheme [of "Cut_before x ''#''" "[]" "Cut_before x ''#''" s r] g ne
    by (simp add: getScheme_def)
  then show ?thesis using lowered_isScheme ne l sv by metis
qed

lemma url_Parse_colon: "\<exists>e. url_Parse (CHR '':'' # r) = Inl e"
proof -
  have "\<exists>r'. Cut_before (CHR '':'' # r) ''#'' = CHR '':'' # r'"
    by (cases "strings_Index r ''#''") (simp_all add: Cut_before_def strings_HasPrefix_def)
  then obtain r' where c: "Cut_before (CHR '':'' # r) ''#'' = CHR '':'' # r'" by blast
  have "getScheme (CHR '':'' # r') = Inl (ErrorString ''missing protocol scheme'')"
    by (simp add: getScheme_def isLetter_def isLowerASCII_def isUpperASCII_def isDigit_def
          less_eq_char_def)
  then have "\<exists>e. parse (CHR '':'' # r') = Inl e" by (simp add: parse_def)
  then show ?thesis unfolding url_Parse_def Let_def c by auto
qed


subsection \<open>The host of a parsed URL\<close>

lemma parseHost_empty: "parseHost [] = Inr []"
  by code_simp

lemma parseAuthority_Host: "parseAuthority A = Inr (user, h) \<Longrightarrow> \<exists>t. parseHost t = Inr h"
  by (auto simp: parseAuthority_def Let_def split: option.splits sum.splits if_splits)

lemma parse_Host:
  assumes "parse x = Inr u"
  shows "Host u = [] \<or> (\<exists>user A. parseAuthority A = Inr (user, Host u))"
proof (cases "stringContainsCTLByte x \<or> x = ''*''")
  case True
  then show ?thesis using assms by (auto simp: parse_def emptyURL_def split: if_splits)
next
  case False
  then obtain s r where g: "getScheme x = Inr (s, r)"
    using assms by (cases "getScheme x") (auto simp: parse_def)
  show ?thesis
    using assms False g
    by (auto simp: parse_def Let_def emptyURL_def
          split: if_splits sum.splits prod.splits dest!: setPath_decode)
qed

lemma url_Parse_Host:
  assumes "url_Parse x = Inr u"
  shows "\<exists>t. parseHost t = Inr (Host u)"
proof -
  have "\<exists>v. parse (Cut_before x ''#'') = Inr v \<and> Host v = Host u"
    using assms
    by (auto simp: url_Parse_def Let_def setFragment_def split: sum.splits if_splits)
  then obtain v where v: "parse (Cut_before x ''#'') = Inr v" "Host v = Host u" by blast
  show ?thesis
    using parse_Host [OF v(1)] v(2) parseHost_empty parseAuthority_Host by metis
qed

subsection \<open>Parsing a scheme, \<open>://\<close> and a host\<close>

lemma hostChar_absent:
  assumes "list_all hostChar H"
  shows "CHR ''#'' \<notin> set H" "CHR ''?'' \<notin> set H" "CHR ''/'' \<notin> set H" "CHR ''@'' \<notin> set H"
    "\<not> stringContainsCTLByte H"
proof -
  have b: "\<And>c. c \<in> set H \<Longrightarrow> hostChar c"
    using assms by (simp add: list_all_iff)
  show "CHR ''#'' \<notin> set H" using b hostChar_facts(1) by blast
  show "CHR ''?'' \<notin> set H" using b hostChar_facts(2) by blast
  show "CHR ''/'' \<notin> set H" using b hostChar_facts(3) by blast
  show "CHR ''@'' \<notin> set H" using b hostChar_facts(4) by blast
  show "\<not> stringContainsCTLByte H"
    unfolding stringContainsCTLByte_def list_ex_iff using b hostChar_facts(6) by blast
qed

lemma parse_normal_form:
  assumes s: "isScheme S" and p: "parseHost H = Inr H" and h: "list_all hostChar H"
  shows "\<exists>u. parse (S @ ''://'' @ H) = Inr u \<and> Scheme u = S \<and> Host u = H"
proof -
  let ?rest = "''//'' @ H"
  have sb: "\<And>c. c \<in> set S \<Longrightarrow> schemeByte c" and ne: "S \<noteq> []"
    using isScheme_bytes [OF s] by (simp_all add: list_all_iff)
  have ctl: "\<not> stringContainsCTLByte (S @ ''://'' @ H)"
    using hostChar_absent(5) [OF h] sb schemeByte_facts(6)
    by (auto simp: stringContainsCTLByte_def list_ex_iff less_char_def)
  have star: "S @ ''://'' @ H \<noteq> ''*''" using ne by (cases S) auto
  have gs: "getScheme (S @ ''://'' @ H) = Inr (S, ?rest)"
    using getScheme_isScheme [OF s, of ?rest] by simp
  have q: "CHR ''?'' \<notin> set ?rest" using hostChar_absent(2) [OF h] by simp
  have cut: "Cut_before ?rest ''?'' = ?rest" "Cut_after ?rest ''?'' = []"
    using Cut_absent [OF q] by simp_all
  have suf: "\<not> strings_HasSuffix ?rest ''?''" using HasSuffix_absent [OF q] .
  have idx: "strings_Index H ''/'' = None" using Index_absent [OF hostChar_absent(3) [OF h]] .
  have pa: "parseAuthority H = Inr (None, H)"
    using LastIndex_absent [OF hostChar_absent(4) [OF h]] p by (simp add: parseAuthority_def)
  have p1: "strings_HasPrefix ?rest ''/''" "strings_HasPrefix ?rest ''//''"
    by (simp_all add: strings_HasPrefix_def)
  have d: "drop 2 ?rest = H" by simp
  have sp: "\<And>v. setPath v [] = Inr (v\<lparr>Path := []\<rparr>)"
    by (simp add: setPath_def unescape_def)
  have lw: "map toLowerASCII S = S" using isScheme_lower [OF s] .
  have "parse (S @ ''://'' @ H)
      = Inr (emptyURL\<lparr>Scheme := S, RawQuery := [], User := None, Host := H, Path := []\<rparr>)"
    unfolding parse_def using ctl star ne
    apply (simp only: gs sum.case prod.case Let_def suf cut p1 d idx pa sp lw if_False if_True
          simp_thms option.case URL.simps)
    apply simp
    done
  then show ?thesis by simp
qed

lemma url_Parse_normal_form:
  assumes s: "isScheme S" and p: "parseHost H = Inr H" and h: "list_all hostChar H"
  shows "\<exists>u. url_Parse (S @ ''://'' @ H) = Inr u \<and> Scheme u = S \<and> Host u = H"
proof -
  have sb: "\<And>c. c \<in> set S \<Longrightarrow> schemeByte c"
    using isScheme_bytes [OF s] by (simp add: list_all_iff)
  have "CHR ''#'' \<notin> set (S @ ''://'' @ H)"
    using hostChar_absent(1) [OF h] sb schemeByte_facts(2) by auto
  then have cut: "Cut_before (S @ ''://'' @ H) ''#'' = S @ ''://'' @ H"
      "Cut_after (S @ ''://'' @ H) ''#'' = []"
    using Cut_absent by simp_all
  obtain u where u: "parse (S @ ''://'' @ H) = Inr u" "Scheme u = S" "Host u = H"
    using parse_normal_form [OF s p h] by blast
  have "url_Parse (S @ ''://'' @ H) = Inr u"
    unfolding url_Parse_def Let_def cut using u(1) by simp
  then show ?thesis using u by blast
qed

subsection \<open>\<open>TrimSpace\<close> on a normalized host\<close>

lemma HasSuffix_iff: "strings_HasSuffix s p \<longleftrightarrow> (\<exists>q. s = q @ p)"
proof
  assume "strings_HasSuffix s p"
  then have "drop (length s - length p) s = p" by (simp add: strings_HasSuffix_def)
  then have "s = take (length s - length p) s @ p" by (metis append_take_drop_id)
  then show "\<exists>q. s = q @ p" ..
next
  assume "\<exists>q. s = q @ p"
  then show "strings_HasSuffix s p" by (auto simp: strings_HasSuffix_def)
qed

lemma HasSuffix_through:
  assumes "c \<notin> set w"
  shows "strings_HasSuffix (Y @ c # H) w \<longleftrightarrow> strings_HasSuffix H w"
proof
  assume "strings_HasSuffix (Y @ c # H) w"
  then obtain q where q: "Y @ c # H = q @ w" using HasSuffix_iff by blast
  then obtain us where "(Y = q @ us \<and> us @ c # H = w) \<or> (Y @ us = q \<and> c # H = us @ w)"
    by (auto simp: append_eq_append_conv2)
  then have "c # H = us @ w" using assms by auto
  then obtain us' where "H = us' @ w" using assms by (cases us) auto
  then show "strings_HasSuffix H w" using HasSuffix_iff by blast
next
  assume "strings_HasSuffix H w"
  then obtain q where "H = q @ w" using HasSuffix_iff by blast
  then have "Y @ c # H = (Y @ c # q) @ w" by simp
  then show "strings_HasSuffix (Y @ c # H) w" using HasSuffix_iff by blast
qed

lemma slash_not_in_space: "w \<in> set unicodeSpaces \<Longrightarrow> CHR ''/'' \<notin> set w \<and> CHR '':'' \<notin> set w"
  by (auto simp: unicodeSpaces_def)

lemma trailingSpace_through:
  assumes "H \<noteq> []"
  shows "trailingSpace (Y @ CHR ''/'' # H) = trailingSpace H"
proof -
  have "find (\<lambda>w. strings_HasSuffix (Y @ CHR ''/'' # H) w) unicodeSpaces
      = find (\<lambda>w. strings_HasSuffix H w) unicodeSpaces"
    using HasSuffix_through slash_not_in_space by (intro find_cong) auto
  then show ?thesis using assms by (simp add: trailingSpace_def)
qed

lemma trailingSpace_normal_form:
  assumes "trailingSpace H = 0"
  shows "trailingSpace (S @ ''://'' @ H) = 0"
proof (cases "H = []")
  case True
  have "isASCII CHR ''/''" "\<not> asciiSpace CHR ''/''" by code_simp+
  then show ?thesis using True trailingSpace_ascii [of "S @ ''://''"] by simp
next
  case False
  have "S @ ''://'' @ H = (S @ '':/'') @ CHR ''/'' # H" by simp
  then show ?thesis using trailingSpace_through [OF False, of "S @ '':/''"] assms by simp
qed

lemma TrimSpace_normal_form:
  assumes "S = [] \<or> isScheme S" and "trailingSpace H = 0"
  shows "strings_TrimSpace (S @ ''://'' @ H) = S @ ''://'' @ H"
proof -
  have "isASCII (hd (S @ ''://'' @ H)) \<and> \<not> asciiSpace (hd (S @ ''://'' @ H))"
  proof (cases "S = []")
    case True
    have "isASCII CHR '':''" "\<not> asciiSpace CHR '':''" by code_simp+
    then show ?thesis using True by simp
  next
    case False
    then have "schemeByte (hd S)" using assms(1) isScheme_bytes [of S] by (cases S) auto
    then show ?thesis using False schemeByte_facts(7,8) by simp
  qed
  then have l: "leadingSpace (S @ ''://'' @ H) = 0"
    using leadingSpace_ascii [of "hd (S @ ''://'' @ H)" "tl (S @ ''://'' @ H)"] by simp
  have t: "trailingSpace (S @ ''://'' @ H) = 0" using trailingSpace_normal_form [OF assms(2)] .
  have "trimLeftSpace (S @ ''://'' @ H) = S @ ''://'' @ H"
    using l by (subst trimLeftSpace.simps) simp
  moreover have "trimRightSpace (S @ ''://'' @ H) = S @ ''://'' @ H"
    using t by (subst trimRightSpace.simps) simp
  ultimately show ?thesis by (simp add: strings_TrimSpace_def)
qed

subsection \<open>\<open>TrimSpace\<close> on a string that begins with a colon\<close>

lemma space_hd: "w \<in> set unicodeSpaces \<Longrightarrow> w \<noteq> [] \<and> hd w \<noteq> CHR '':''"
  by (auto simp: unicodeSpaces_def)

lemma trailingSpace_colon: "trailingSpace (CHR '':'' # x) \<le> length x"
proof (cases "asciiSpace (last (CHR '':'' # x))")
  case True
  have "\<not> asciiSpace CHR '':''" by code_simp
  then have "x \<noteq> []" using True by auto
  then show ?thesis using True by (cases x) (simp_all add: trailingSpace_def)
next
  case False
  show ?thesis
  proof (cases "find (\<lambda>w. strings_HasSuffix (CHR '':'' # x) w) unicodeSpaces")
    case None
    then show ?thesis using False by (simp add: trailingSpace_def)
  next
    case (Some w)
    then have w: "w \<in> set unicodeSpaces" "strings_HasSuffix (CHR '':'' # x) w"
      by (auto simp: find_Some_iff)
    then obtain q where q: "CHR '':'' # x = q @ w" using HasSuffix_iff by blast
    have "q \<noteq> []"
    proof
      assume "q = []"
      then have "hd w = CHR '':''" using q by (metis append_Nil list.sel(1))
      then show False using space_hd [OF w(1)] by simp
    qed
    then have "length w \<le> length x"
      using q by (cases q) (auto dest: arg_cong [where f = length])
    then show ?thesis using False Some by (simp add: trailingSpace_def)
  qed
qed

lemma trimRightSpace_colon: "\<exists>y. trimRightSpace (CHR '':'' # x) = CHR '':'' # y"
proof (induction "length x" arbitrary: x rule: less_induct)
  case less
  show ?case
  proof (cases "trailingSpace (CHR '':'' # x) = 0")
    case True
    then have "trimRightSpace (CHR '':'' # x) = CHR '':'' # x"
      by (subst trimRightSpace.simps) simp
    then show ?thesis by blast
  next
    case False
    let ?n = "trailingSpace (CHR '':'' # x)"
    have n: "?n \<le> length x" by (rule trailingSpace_colon)
    have tk: "take (length (CHR '':'' # x) - ?n) (CHR '':'' # x) = CHR '':'' # take (length x - ?n) x"
      using n by (simp add: Suc_diff_le)
    have "trimRightSpace (CHR '':'' # x) = trimRightSpace (CHR '':'' # take (length x - ?n) x)"
      using False tk by (subst trimRightSpace.simps) simp
    moreover have "length (take (length x - ?n) x) < length x" using False n by simp
    ultimately show ?thesis using less.hyps by metis
  qed
qed

lemma TrimSpace_colon: "\<exists>y. strings_TrimSpace (CHR '':'' # x) = CHR '':'' # y"
proof -
  have "isASCII CHR '':''" "\<not> asciiSpace CHR '':''" by code_simp+
  then have "leadingSpace (CHR '':'' # x) = 0" by (rule leadingSpace_ascii)
  then have "trimLeftSpace (CHR '':'' # x) = CHR '':'' # x"
    by (subst trimLeftSpace.simps) simp
  then show ?thesis using trimRightSpace_colon by (simp add: strings_TrimSpace_def)
qed

subsection \<open>Normalizing a normalized host\<close>

lemma normalizeHost_parse:
  "normalizeHost c h =
     (case url_Parse (strings_TrimSpace h) of Inl err \<Rightarrow> [] | Inr u \<Rightarrow> Scheme u @ ''://'' @ Host u)"
  by (simp add: normalizeHost_def GetHost_def client_Host_def)

lemma normalizeHost_normal_form:
  assumes "isScheme S" and "parseHost H = Inr H" and "list_all hostChar H"
    and "trailingSpace H = 0"
  shows "normalizeHost c (S @ ''://'' @ H) = S @ ''://'' @ H"
proof -
  obtain u where "url_Parse (S @ ''://'' @ H) = Inr u" "Scheme u = S" "Host u = H"
    using url_Parse_normal_form [OF assms(1,2,3)] by blast
  then show ?thesis
    unfolding normalizeHost_parse TrimSpace_normal_form [OF disjI2 [OF assms(1)] assms(4)]
    by simp
qed

lemma normalizeHost_colon: "normalizeHost c (CHR '':'' # x) = []"
proof -
  obtain y where y: "strings_TrimSpace (CHR '':'' # x) = CHR '':'' # y"
    using TrimSpace_colon by blast
  obtain e where "url_Parse (CHR '':'' # y) = Inl e" using url_Parse_colon by blast
  then show ?thesis unfolding normalizeHost_parse y by simp
qed

lemma normalizeHost_empty: "normalizeHost c [] = ''://''"
  unfolding normalizeHost_parse by code_simp


subsection \<open>A host with \<open>%\<close> or with a space at its end does not parse as itself\<close>

lemma space_or_hostChar:
  "\<not> shouldEscape d encodeHost \<Longrightarrow> hostChar d"
  by (simp add: hostChar_def)

lemma decode_bytes_zone:
  "unescape_check t encodeZone = None \<Longrightarrow> d \<in> set (unescape_decode t encodeZone) \<Longrightarrow>
     hostChar d \<or> d = CHR ''%'' \<or> d = CHR '' ''"
proof (induction "length t" arbitrary: t rule: less_induct)
  case less
  show ?case
  proof (cases t)
    case Nil
    then show ?thesis using less.prems by simp
  next
    case (Cons c s)
    show ?thesis
    proof (cases "c = CHR ''%''")
      case True
      then obtain h1 h2 s' where s: "s = h1 # h2 # s'"
        using less.prems(1) Cons by (cases s; cases "tl s") auto
      let ?v = "char_of (unhex h1 * 16 + unhex h2) :: char"
      have ok: "[c, h1, h2] = ''%25'' \<or> ?v = CHR '' '' \<or> \<not> shouldEscape ?v encodeHost"
        and rest: "unescape_check s' encodeZone = None"
        using less.prems(1) True Cons s by (auto split: if_splits)
      have hd: "?v = CHR ''%'' \<or> ?v = CHR '' '' \<or> hostChar ?v"
        using ok decoded_25 space_or_hostChar by blast
      consider (first) "d = ?v" | (later) "d \<in> set (unescape_decode s' encodeZone)"
        using less.prems(2) True Cons s by auto
      then show ?thesis
      proof cases
        case first
        then show ?thesis using hd by auto
      next
        case later
        have "length s' < length t" using Cons s by simp
        then show ?thesis using less.hyps [OF _ rest later] by simp
      qed
    next
      case False
      have l: "length s < length t" using Cons by simp
      show ?thesis
      proof (cases "c = CHR ''+''")
        case True
        have rest: "unescape_check s encodeZone = None" using less.prems(1) True Cons by simp
        consider (first) "d = c" | (later) "d \<in> set (unescape_decode s encodeZone)"
          using less.prems(2) True Cons by auto
        then show ?thesis
        proof cases
          case first
          then show ?thesis using True plus_hostChar by simp
        next
          case later
          then show ?thesis using less.hyps [OF l rest later] by simp
        qed
      next
        case plus: False
        have rest: "unescape_check s encodeZone = None" and hc: "hostChar c"
          using less.prems(1) False plus Cons by (auto simp: hostChar_def split: if_splits)
        consider (first) "d = c" | (later) "d \<in> set (unescape_decode s encodeZone)"
          using less.prems(2) False plus Cons by auto
        then show ?thesis
        proof cases
          case first
          then show ?thesis using hc by simp
        next
          case later
          then show ?thesis using less.hyps [OF l rest later] by simp
        qed
      qed
    qed
  qed
qed

lemma unescape_bytes:
  assumes "unescape t m = Inr z" and "m = encodeHost \<or> m = encodeZone" and "d \<in> set z"
  shows "hostChar d \<or> d = CHR ''%'' \<or> d = CHR '' ''"
proof -
  have c: "unescape_check t m = None" and z: "z = unescape_decode t m"
    using assms(1) by (auto simp: unescape_def split: option.splits)
  show ?thesis
    using assms(2,3) c decode_bytes [of t d] decode_bytes_zone [of t d] unfolding z by blast
qed

lemma parseHost_bytes:
  assumes "parseHost t = Inr H" and "d \<in> set H"
  shows "hostChar d \<or> d = CHR ''%'' \<or> d = CHR '' ''"
proof -
  consider (plain) "unescape t encodeHost = Inr H"
    | (zone) a b e h1 h2 h3 where "unescape a encodeHost = Inr h1" "unescape b encodeZone = Inr h2"
        "unescape e encodeHost = Inr h3" "H = h1 @ h2 @ h3"
    using assms(1) by (auto simp: parseHost_def split: if_splits option.splits sum.splits)
  then show ?thesis
  proof cases
    case plain
    then show ?thesis using unescape_bytes assms(2) by blast
  next
    case zone
    then have "d \<in> set h1 \<or> d \<in> set h2 \<or> d \<in> set h3" using assms(2) by auto
    then show ?thesis using zone(1,2,3) unescape_bytes by blast
  qed
qed

lemma decode_length:
  "unescape_check y m = None \<Longrightarrow>
     length (unescape_decode y m) \<le> length y
     \<and> (CHR ''%'' \<in> set y \<longrightarrow> length (unescape_decode y m) < length y)"
proof (induction "length y" arbitrary: y rule: less_induct)
  case less
  show ?case
  proof (cases y)
    case Nil
    then show ?thesis by simp
  next
    case (Cons c s)
    show ?thesis
    proof (cases "c = CHR ''%''")
      case True
      then obtain h1 h2 s' where s: "s = h1 # h2 # s'"
        using less.prems(1) Cons by (cases s; cases "tl s") auto
      have rest: "unescape_check s' m = None"
        using less.prems(1) True Cons s by (auto split: if_splits)
      have "length s' < length y" using Cons s by simp
      then have "length (unescape_decode s' m) \<le> length s'" using less.hyps rest by blast
      then show ?thesis using True Cons s by simp
    next
      case False
      have rest: "unescape_check s m = None"
        using less.prems(1) False Cons by (auto split: if_splits)
      have "length s < length y" using Cons by simp
      then have "length (unescape_decode s m) \<le> length s
          \<and> (CHR ''%'' \<in> set s \<longrightarrow> length (unescape_decode s m) < length s)"
        using less.hyps rest by blast
      then show ?thesis using False Cons by auto
    qed
  qed
qed

lemma unescape_length:
  assumes "unescape y m = Inr z"
  shows "length z \<le> length y" and "CHR ''%'' \<in> set y \<Longrightarrow> length z < length y"
proof -
  have c: "unescape_check y m = None" and z: "z = unescape_decode y m"
    using assms by (auto simp: unescape_def split: option.splits)
  show "length z \<le> length y" and "CHR ''%'' \<in> set y \<Longrightarrow> length z < length y"
    using decode_length [OF c] unfolding z by simp_all
qed

lemma parseHost_length:
  assumes "parseHost y = Inr z"
  shows "length z \<le> length y" and "CHR ''%'' \<in> set y \<Longrightarrow> length z < length y"
proof -
  consider (plain) "unescape y encodeHost = Inr z"
    | (zone) i k h1 h2 h3 where "strings_Index (take i y) ''%25'' = Some k"
        "unescape (take k y) encodeHost = Inr h1"
        "unescape (drop k (take i y)) encodeZone = Inr h2"
        "unescape (drop i y) encodeHost = Inr h3" "z = h1 @ h2 @ h3"
    using assms(1) by (auto simp: parseHost_def split: if_splits option.splits sum.splits)
  then have "length z \<le> length y \<and> (CHR ''%'' \<in> set y \<longrightarrow> length z < length y)"
  proof cases
    case plain
    then show ?thesis using unescape_length by blast
  next
    case zone
    obtain r where r: "drop k (take i y) = ''%25'' @ r" using Index_Some_percent [OF zone(1)] by blast
    then have "CHR ''%'' \<in> set (drop k (take i y))" by simp
    then have 2: "length h2 < length (drop k (take i y))" using unescape_length(2) [OF zone(3)] by blast
    have 1: "length h1 \<le> length (take k y)" using unescape_length(1) [OF zone(2)] .
    have 3: "length h3 \<le> length (drop i y)" using unescape_length(1) [OF zone(4)] .
    have "length (drop k (take i y)) = 3 + length r" using r by simp
    then have "min (length y) i - k = 3 + length r" by simp
    then have ki: "k \<le> length y \<and> k \<le> i" by arith
    have L: "length (take k y) = min (length y) k"
      "length (drop k (take i y)) = min (length y) i - k" "length (drop i y) = length y - i"
      by simp_all
    have "length (take k y) + length (drop k (take i y)) + length (drop i y) \<le> length y"
      unfolding L using ki by arith
    then have "length z < length y" using 1 2 3 zone(5) by simp
    then show ?thesis by simp
  qed
  then show "length z \<le> length y" and "CHR ''%'' \<in> set y \<Longrightarrow> length z < length y"
    by simp_all
qed


lemma wide_absent:
  assumes "\<And>d. d \<in> set H \<Longrightarrow> hostChar d \<or> d = CHR ''%'' \<or> d = CHR '' ''"
  shows "CHR ''#'' \<notin> set H" "CHR ''?'' \<notin> set H" "CHR ''/'' \<notin> set H" "CHR ''@'' \<notin> set H"
    "\<not> stringContainsCTLByte H"
proof -
  show "CHR ''#'' \<notin> set H" using assms hostChar_facts(1) by fastforce
  show "CHR ''?'' \<notin> set H" using assms hostChar_facts(2) by fastforce
  show "CHR ''/'' \<notin> set H" using assms hostChar_facts(3) by fastforce
  show "CHR ''@'' \<notin> set H" using assms hostChar_facts(4) by fastforce
  have "\<not> (CHR ''%'' < CHR '' '' \<or> CHR ''%'' = CHR 0x7F)"
    "\<not> (CHR '' '' < CHR '' '' \<or> CHR '' '' = CHR 0x7F)"
    by code_simp+
  then have "\<And>d. d \<in> set H \<Longrightarrow> \<not> (d < CHR '' '' \<or> d = CHR 0x7F)"
    using assms hostChar_facts(6) by blast
  then show "\<not> stringContainsCTLByte H"
    unfolding stringContainsCTLByte_def list_ex_iff by blast
qed

lemma url_Parse_scheme_host:
  assumes s: "isScheme S"
    and b: "\<And>d. d \<in> set H \<Longrightarrow> hostChar d \<or> d = CHR ''%'' \<or> d = CHR '' ''"
    and p: "url_Parse (S @ ''://'' @ H) = Inr u"
  shows "Scheme u = S \<and> parseHost H = Inr (Host u)"
proof -
  let ?rest = "''//'' @ H"
  note ab = wide_absent [of H, OF b]
  have sb: "\<And>c. c \<in> set S \<Longrightarrow> schemeByte c" and ne: "S \<noteq> []"
    using isScheme_bytes [OF s] by (simp_all add: list_all_iff)
  have ctl: "\<not> stringContainsCTLByte (S @ ''://'' @ H)"
    using ab(5) sb schemeByte_facts(6)
    by (auto simp: stringContainsCTLByte_def list_ex_iff less_char_def)
  have star: "S @ ''://'' @ H \<noteq> ''*''" using ne by (cases S) auto
  have gs: "getScheme (S @ ''://'' @ H) = Inr (S, ?rest)"
    using getScheme_isScheme [OF s, of ?rest] by simp
  have q: "CHR ''?'' \<notin> set ?rest" using ab(2) by simp
  have cut: "Cut_before ?rest ''?'' = ?rest" "Cut_after ?rest ''?'' = []"
    using Cut_absent [OF q] by simp_all
  have suf: "\<not> strings_HasSuffix ?rest ''?''" using HasSuffix_absent [OF q] .
  have idx: "strings_Index H ''/'' = None" using Index_absent [OF ab(3)] .
  have p1: "strings_HasPrefix ?rest ''/''" "strings_HasPrefix ?rest ''//''"
    by (simp_all add: strings_HasPrefix_def)
  have d: "drop 2 ?rest = H" by simp
  have sp: "\<And>v. setPath v [] = Inr (v\<lparr>Path := []\<rparr>)"
    by (simp add: setPath_def unescape_def)
  have lw: "map toLowerASCII S = S" using isScheme_lower [OF s] .
  have "CHR ''#'' \<notin> set (S @ ''://'' @ H)"
    using ab(1) sb schemeByte_facts(2) by auto
  then have cuth: "Cut_before (S @ ''://'' @ H) ''#'' = S @ ''://'' @ H"
      "Cut_after (S @ ''://'' @ H) ''#'' = []"
    using Cut_absent by simp_all
  show ?thesis
  proof (cases "parseHost H")
    case (Inl e)
    then have pa: "parseAuthority H = Inl e"
      using LastIndex_absent [OF ab(4)] by (simp add: parseAuthority_def)
    have "parse (S @ ''://'' @ H) = Inl e"
      unfolding parse_def using ctl star ne
      apply (simp only: gs sum.case prod.case Let_def suf cut p1 d idx pa sp lw if_False if_True
          simp_thms option.case URL.simps)
      apply simp
      done
    then have "\<exists>e'. url_Parse (S @ ''://'' @ H) = Inl e'"
      unfolding url_Parse_def Let_def cuth by simp
    then show ?thesis using p by auto
  next
    case (Inr z)
    then have pa: "parseAuthority H = Inr (None, z)"
      using LastIndex_absent [OF ab(4)] by (simp add: parseAuthority_def)
    have "parse (S @ ''://'' @ H)
        = Inr (emptyURL\<lparr>Scheme := S, RawQuery := [], User := None, Host := z, Path := []\<rparr>)"
      unfolding parse_def using ctl star ne
      apply (simp only: gs sum.case prod.case Let_def suf cut p1 d idx pa sp lw if_False if_True
          simp_thms option.case URL.simps)
      apply simp
      done
    then have "url_Parse (S @ ''://'' @ H)
        = Inr (emptyURL\<lparr>Scheme := S, RawQuery := [], User := None, Host := z, Path := []\<rparr>)"
      unfolding url_Parse_def Let_def cuth by simp
    then show ?thesis using p Inr by auto
  qed
qed

lemma trailingSpace_le: "trailingSpace s \<le> length s"
proof (cases "s = []")
  case True
  then show ?thesis by (simp add: trailingSpace_def)
next
  case False
  show ?thesis
  proof (cases "asciiSpace (last s)")
    case True
    then show ?thesis using False by (cases s) (simp_all add: trailingSpace_def)
  next
    case ns: False
    show ?thesis
    proof (cases "find (\<lambda>w. strings_HasSuffix s w) unicodeSpaces")
      case None
      then show ?thesis using False ns by (simp add: trailingSpace_def)
    next
      case (Some w)
      then have "strings_HasSuffix s w" by (auto simp: find_Some_iff)
      then have "length w \<le> length s" by (simp add: strings_HasSuffix_def)
      then show ?thesis using False ns Some by (simp add: trailingSpace_def)
    qed
  qed
qed

lemma trimRightSpace_host:
  "\<exists>k. trimRightSpace (Y @ CHR ''/'' # H) = Y @ CHR ''/'' # take k H
     \<and> (trailingSpace H \<noteq> 0 \<longrightarrow> k < length H)"
proof (induction "length H" arbitrary: H rule: less_induct)
  case less
  show ?case
  proof (cases "trailingSpace H = 0")
    case True
    have "trailingSpace (Y @ CHR ''/'' # H) = 0"
    proof (cases "H = []")
      case e: True
      have "isASCII CHR ''/''" "\<not> asciiSpace CHR ''/''" by code_simp+
      then show ?thesis using e trailingSpace_ascii [of "Y @ ''/''"] by simp
    next
      case ne: False
      show ?thesis using trailingSpace_through [OF ne, of Y] True by simp
    qed
    then have "trimRightSpace (Y @ CHR ''/'' # H) = Y @ CHR ''/'' # take (length H) H"
      by (subst trimRightSpace.simps) simp
    then show ?thesis using True by blast
  next
    case False
    then have ne: "H \<noteq> []" by (auto simp: trailingSpace_def)
    let ?n = "trailingSpace H"
    have n: "trailingSpace (Y @ CHR ''/'' # H) = ?n" using trailingSpace_through [OF ne] .
    have le: "?n \<le> length H" by (rule trailingSpace_le)
    have tk: "take (length (Y @ CHR ''/'' # H) - ?n) (Y @ CHR ''/'' # H)
        = Y @ CHR ''/'' # take (length H - ?n) H"
      using le by (simp add: Suc_diff_le)
    have st: "trimRightSpace (Y @ CHR ''/'' # H)
        = trimRightSpace (Y @ CHR ''/'' # take (length H - ?n) H)"
      using False n tk by (subst trimRightSpace.simps) simp
    have "length (take (length H - ?n) H) < length H" using False le ne by simp
    then obtain k where k: "trimRightSpace (Y @ CHR ''/'' # take (length H - ?n) H)
        = Y @ CHR ''/'' # take k (take (length H - ?n) H)"
      using less.hyps by blast
    have m: "take k (take (length H - ?n) H) = take (min k (length H - ?n)) H" by simp
    have "length H - ?n < length H" using False le ne by (cases H) auto
    then have lt: "min k (length H - ?n) < length H" by simp
    have "trimRightSpace (Y @ CHR ''/'' # H) = Y @ CHR ''/'' # take (min k (length H - ?n)) H"
      using st k m by simp
    then show ?thesis using lt by blast
  qed
qed

lemma TrimSpace_host:
  assumes "isScheme S"
  shows "\<exists>k. strings_TrimSpace (S @ ''://'' @ H) = S @ ''://'' @ take k H
     \<and> (trailingSpace H \<noteq> 0 \<longrightarrow> k < length H)"
proof -
  have "schemeByte (hd S)" "S \<noteq> []" using assms isScheme_bytes [of S] by (cases S; auto)+
  then have "isASCII (hd (S @ ''://'' @ H)) \<and> \<not> asciiSpace (hd (S @ ''://'' @ H))"
    using schemeByte_facts(7,8) by simp
  then have "leadingSpace (S @ ''://'' @ H) = 0"
    using leadingSpace_ascii [of "hd (S @ ''://'' @ H)" "tl (S @ ''://'' @ H)"] by simp
  then have l: "trimLeftSpace (S @ ''://'' @ H) = S @ ''://'' @ H"
    by (subst trimLeftSpace.simps) simp
  obtain k where "trimRightSpace ((S @ '':/'') @ CHR ''/'' # H) = (S @ '':/'') @ CHR ''/'' # take k H"
    "trailingSpace H \<noteq> 0 \<longrightarrow> k < length H"
    using trimRightSpace_host [of "S @ '':/''" H] by blast
  then show ?thesis using l by (auto simp: strings_TrimSpace_def)
qed

lemma normalizeHost_not_fixed:
  assumes s: "isScheme S" and t: "parseHost t = Inr H"
    and c: "CHR ''%'' \<in> set H \<or> trailingSpace H \<noteq> 0"
  shows "normalizeHost c0 (S @ ''://'' @ H) \<noteq> S @ ''://'' @ H"
proof
  assume eq: "normalizeHost c0 (S @ ''://'' @ H) = S @ ''://'' @ H"
  obtain k where k: "strings_TrimSpace (S @ ''://'' @ H) = S @ ''://'' @ take k H"
    "trailingSpace H \<noteq> 0 \<longrightarrow> k < length H"
    using TrimSpace_host [OF s] by blast
  have b: "\<And>d. d \<in> set (take k H) \<Longrightarrow> hostChar d \<or> d = CHR ''%'' \<or> d = CHR '' ''"
    using parseHost_bytes [OF t] by (meson in_set_takeD)
  obtain u where u: "url_Parse (S @ ''://'' @ take k H) = Inr u"
    "Scheme u @ ''://'' @ Host u = S @ ''://'' @ H"
    using eq unfolding normalizeHost_parse k(1)
    by (cases "url_Parse (S @ ''://'' @ take k H)") auto
  have r: "Scheme u = S" "parseHost (take k H) = Inr (Host u)"
    using url_Parse_scheme_host [OF s b u(1)] by simp_all
  then have h: "Host u = H" using u(2) by simp
  have "length H \<le> length (take k H)" using parseHost_length(1) [OF r(2)] h by simp
  then have "length H \<le> k" by simp
  then have full: "take k H = H" and "\<not> k < length H" by simp_all
  then have "CHR ''%'' \<in> set H" using c k(2) by blast
  then have "length (Host u) < length H" using parseHost_length(2) [OF r(2)] full by simp
  then show False using h by simp
qed


subsection \<open>Idempotence\<close>

text \<open>
  Claim C6, as the specification states it: normalizing a host is idempotent for every host
  string, the empty string and malformed inputs included. It fails at both: the empty string
  parses as a URL with no scheme and no host, which reads back as \<open>://\<close>, and \<open>://\<close> does
  not parse, which reads back as the empty string; a malformed input such as \<open>:\<close> reads back
  as the empty string, whose normal form is \<open>://\<close>. It also fails for two kinds of hosts with
  a scheme. \<open>url.Parse\<close> decodes the host, so the normal form of \<open>http://a%25b\<close> is
  \<open>http://a%b\<close>, which does not parse. And \<open>Host\<close> trims the space at the end of the
  normal form: the normal form of \<open>http://a%C2%A0\<close> ends with a no-break space, and
  normalizing it gives \<open>http://a\<close>.
\<close>

theorem normalizeHost_degenerate_counterexample:
  "normalizeHost hopClient [] = ''://''
   \<and> normalizeHost hopClient (normalizeHost hopClient []) = []
   \<and> normalizeHost hopClient '':'' = []
   \<and> normalizeHost hopClient (normalizeHost hopClient '':'') = ''://''
   \<and> normalizeHost hopClient ''http://a%25b'' = ''http://a%b''
   \<and> normalizeHost hopClient (normalizeHost hopClient ''http://a%25b'') = []
   \<and> normalizeHost hopClient ''http://a%C2%A0'' = ''http://a'' @ [CHR 0xC2, CHR 0xA0]
   \<and> normalizeHost hopClient (normalizeHost hopClient ''http://a%C2%A0'') = ''http://a''"
  unfolding normalizeHost_parse by code_simp

text \<open>
  Claim C6, amended. When the trimmed host parses with a scheme, the normal form is the
  lower-case scheme, \<open>://\<close> and the host of the parsed URL, and normalizing the normal form
  returns it unchanged exactly when that host has no \<open>%\<close> and no space at its end; the
  host may be a name, an address in brackets, with or without a port, or empty. When the
  trimmed host parses with no scheme, the normal form is \<open>://\<close> and the host, and
  normalizing that gives the empty string. When it does not parse, the normal form is the
  empty string, and normalizing that gives \<open>://\<close>.
\<close>

theorem normalizeHost_idempotent:
  "(url_Parse (strings_TrimSpace h) = Inr u \<and> Scheme u \<noteq> [] \<longrightarrow>
      normalizeHost c h = Scheme u @ ''://'' @ Host u
      \<and> (normalizeHost c (normalizeHost c h) = normalizeHost c h
           \<longleftrightarrow> CHR ''%'' \<notin> set (Host u) \<and> trailingSpace (Host u) = 0))
   \<and> (url_Parse (strings_TrimSpace h) = Inr u \<and> Scheme u = [] \<longrightarrow>
      normalizeHost c h = ''://'' @ Host u
      \<and> normalizeHost c (normalizeHost c h) = [])
   \<and> ((\<exists>err. url_Parse (strings_TrimSpace h) = Inl err) \<longrightarrow>
      normalizeHost c h = [] \<and> normalizeHost c (normalizeHost c h) = ''://'')"
proof (intro conjI impI)
  assume a: "url_Parse (strings_TrimSpace h) = Inr u \<and> Scheme u \<noteq> []"
  then have s: "isScheme (Scheme u)" using url_Parse_Scheme by blast
  obtain t where t: "parseHost t = Inr (Host u)" using url_Parse_Host a by blast
  show n: "normalizeHost c h = Scheme u @ ''://'' @ Host u"
    using a by (simp add: normalizeHost_parse)
  show "normalizeHost c (normalizeHost c h) = normalizeHost c h
      \<longleftrightarrow> CHR ''%'' \<notin> set (Host u) \<and> trailingSpace (Host u) = 0"
  proof
    assume "normalizeHost c (normalizeHost c h) = normalizeHost c h"
    then show "CHR ''%'' \<notin> set (Host u) \<and> trailingSpace (Host u) = 0"
      unfolding n using normalizeHost_not_fixed [OF s t, of c] by blast
  next
    assume b: "CHR ''%'' \<notin> set (Host u) \<and> trailingSpace (Host u) = 0"
    have p: "parseHost (Host u) = Inr (Host u)" "list_all hostChar (Host u)"
      using parseHost_stable [OF t] b by simp_all
    show "normalizeHost c (normalizeHost c h) = normalizeHost c h"
      unfolding n using normalizeHost_normal_form [OF s p] b by blast
  qed
next
  assume a: "url_Parse (strings_TrimSpace h) = Inr u \<and> Scheme u = []"
  show n: "normalizeHost c h = ''://'' @ Host u"
    using a by (simp add: normalizeHost_parse)
  show "normalizeHost c (normalizeHost c h) = []"
    unfolding n using normalizeHost_colon [of c "''//'' @ Host u"] by simp
next
  assume a: "\<exists>err. url_Parse (strings_TrimSpace h) = Inl err"
  show n: "normalizeHost c h = []"
    using a by (auto simp: normalizeHost_parse)
  show "normalizeHost c (normalizeHost c h) = ''://''"
    unfolding n by (rule normalizeHost_empty)
qed

theorem normalizeHost_idempotent_witness:
  "normalizeHost hopClient ''  HTTP://User@Example.com:8080/path?x=1 '' = ''http://Example.com:8080''
   \<and> normalizeHost hopClient (normalizeHost hopClient ''  HTTP://User@Example.com:8080/path?x=1 '')
       = normalizeHost hopClient ''  HTTP://User@Example.com:8080/path?x=1 ''
   \<and> normalizeHost hopClient ''http://[::1]:80/x'' = ''http://[::1]:80''
   \<and> normalizeHost hopClient (normalizeHost hopClient ''http://[::1]:80/x'')
       = normalizeHost hopClient ''http://[::1]:80/x''
   \<and> normalizeHost hopClient ''http://a%25b'' = ''http://a%b''
   \<and> normalizeHost hopClient (normalizeHost hopClient ''http://a%25b'')
       \<noteq> normalizeHost hopClient ''http://a%25b''
   \<and> normalizeHost hopClient ''//example.com'' = ''://example.com''
   \<and> normalizeHost hopClient (normalizeHost hopClient ''//example.com'') = []
   \<and> normalizeHost hopClient ''http://[::1'' = []
   \<and> normalizeHost hopClient (normalizeHost hopClient ''http://[::1'') = ''://''"
proof -
  let ?h = "''  HTTP://User@Example.com:8080/path?x=1 ''"
  let ?u = "emptyURL\<lparr>Scheme := ''http'', User := Some (''User'', None),
              Host := ''Example.com:8080'', Path := ''/path'', RawQuery := ''x=1''\<rparr>"
  let ?w = "emptyURL\<lparr>Scheme := ''http'', Host := ''[::1]:80'', Path := ''/x''\<rparr>"
  let ?x = "emptyURL\<lparr>Scheme := ''http'', Host := ''a%b''\<rparr>"
  let ?v = "emptyURL\<lparr>Host := ''example.com''\<rparr>"
  have p: "url_Parse (strings_TrimSpace ?h) = Inr ?u \<and> Scheme ?u \<noteq> []"
    and p': "CHR ''%'' \<notin> set (Host ?u) \<and> trailingSpace (Host ?u) = 0"
    by code_simp+
  have i: "url_Parse (strings_TrimSpace ''http://[::1]:80/x'') = Inr ?w \<and> Scheme ?w \<noteq> []"
    and i': "CHR ''%'' \<notin> set (Host ?w) \<and> trailingSpace (Host ?w) = 0"
    by code_simp+
  have j: "url_Parse (strings_TrimSpace ''http://a%25b'') = Inr ?x \<and> Scheme ?x \<noteq> []"
    and j': "\<not> (CHR ''%'' \<notin> set (Host ?x) \<and> trailingSpace (Host ?x) = 0)"
    by code_simp+
  have q: "url_Parse (strings_TrimSpace ''//example.com'') = Inr ?v \<and> Scheme ?v = []"
    by code_simp
  have "case url_Parse (strings_TrimSpace ''http://[::1'') of Inl err \<Rightarrow> True | Inr w \<Rightarrow> False"
    by code_simp
  then have r: "\<exists>err. url_Parse (strings_TrimSpace ''http://[::1'') = Inl err"
    by (cases "url_Parse (strings_TrimSpace ''http://[::1'')") simp_all
  note T = normalizeHost_idempotent
  note A = T [of ?h ?u hopClient, THEN conjunct1, THEN mp, OF p]
  note B = T [of "''http://[::1]:80/x''" ?w hopClient, THEN conjunct1, THEN mp, OF i]
  note C = T [of "''http://a%25b''" ?x hopClient, THEN conjunct1, THEN mp, OF j]
  have 1: "normalizeHost hopClient ?h = Scheme ?u @ ''://'' @ Host ?u"
    "normalizeHost hopClient (normalizeHost hopClient ?h) = normalizeHost hopClient ?h"
    using A p' by blast+
  have 2: "normalizeHost hopClient ''http://[::1]:80/x'' = Scheme ?w @ ''://'' @ Host ?w"
    "normalizeHost hopClient (normalizeHost hopClient ''http://[::1]:80/x'')
          = normalizeHost hopClient ''http://[::1]:80/x''"
    using B i' by blast+
  have 3: "normalizeHost hopClient ''http://a%25b'' = Scheme ?x @ ''://'' @ Host ?x"
    "normalizeHost hopClient (normalizeHost hopClient ''http://a%25b'')
          \<noteq> normalizeHost hopClient ''http://a%25b''"
    using C j' by blast+
  have 4: "normalizeHost hopClient ''//example.com'' = ''://'' @ Host ?v
      \<and> normalizeHost hopClient (normalizeHost hopClient ''//example.com'') = []"
    using T [of "''//example.com''" ?v hopClient, THEN conjunct2, THEN conjunct1, THEN mp, OF q] .
  have 5: "normalizeHost hopClient ''http://[::1'' = []
      \<and> normalizeHost hopClient (normalizeHost hopClient ''http://[::1'') = ''://''"
    using T [of "''http://[::1''" ?u hopClient, THEN conjunct2, THEN conjunct2, THEN mp, OF r] .
  have e: "Scheme ?u @ ''://'' @ Host ?u = ''http://Example.com:8080''"
    "Scheme ?w @ ''://'' @ Host ?w = ''http://[::1]:80''"
    "Scheme ?x @ ''://'' @ Host ?x = ''http://a%b''"
    "''://'' @ Host ?v = ''://example.com''"
    by (simp_all add: emptyURL_def)
  show ?thesis using 1 2 3 4 5 unfolding e by blast
qed

end
